theory Spec2Isabelle
  imports Complex_Main "HOL-Library.Finite_Map"
begin

section \<open>Filename sanitizer (internal/workflow/utils.go)\<close>

text \<open>
  Go strings are byte sequences; every character the sanitizer looks at is ASCII, and an
  ASCII byte never occurs inside a multi-byte UTF-8 sequence, so the byte-wise model
  below agrees with \<^verbatim>\<open>strings.ReplaceAll\<close>, the regular expression
  \<^verbatim>\<open>[<>:"/\\|?*]\<close> and \<^verbatim>\<open>strings.Trim\<close>. \<^verbatim>\<open>len\<close> counts bytes.
\<close>

definition ReplaceAll_space :: "string \<Rightarrow> string" where
  "ReplaceAll_space name = map (\<lambda>c. if c = CHR '' '' then CHR ''_'' else c) name"

definition unsafe_chars :: "char list" where
  "unsafe_chars = [CHR ''<'', CHR ''>'', CHR '':'', CHR 0x22, CHR ''/'', CHR 0x5C,
                   CHR ''|'', CHR ''?'', CHR ''*'']"

definition remove_unsafe :: "string \<Rightarrow> string" where
  "remove_unsafe name = filter (\<lambda>c. c \<notin> set unsafe_chars) name"

definition TrimLeft :: "char list \<Rightarrow> string \<Rightarrow> string" where
  "TrimLeft cutset s = dropWhile (\<lambda>c. c \<in> set cutset) s"

definition TrimRight :: "char list \<Rightarrow> string \<Rightarrow> string" where
  "TrimRight cutset s = rev (dropWhile (\<lambda>c. c \<in> set cutset) (rev s))"

definition Trim :: "char list \<Rightarrow> string \<Rightarrow> string" where
  "Trim cutset s = TrimRight cutset (TrimLeft cutset s)"

definition limit_length :: "string \<Rightarrow> string" where
  "limit_length name = (if length name > 200 then take 200 name else name)"

definition SanitizeFilename :: "string \<Rightarrow> string" where
  "SanitizeFilename name =
     (let name1 = ReplaceAll_space name;
          name2 = remove_unsafe name1;
          name3 = Trim ''. '' name2;
          name4 = limit_length name3
      in if name4 = [] then ''workflow'' else name4)"

definition cleaned :: "string \<Rightarrow> string" where
  \<comment> \<open>The value of \<^verbatim>\<open>name\<close> just before the empty-name default is applied.\<close>
  "cleaned name = limit_length (Trim ''. '' (remove_unsafe (ReplaceAll_space name)))"

section \<open>Decoded JSON values and node records\<close>

text \<open>
  A node is a \<^verbatim>\<open>map[string]interface{}\<close> produced by \<^verbatim>\<open>encoding/json\<close>: the
  dynamic values are nil, bool, float64, string, slices and string-keyed maps. The
  type assertions \<^verbatim>\<open>v.(string)\<close> and \<^verbatim>\<open>v.(map[string]interface{})\<close> in their
  two-result form never panic; on a missing key the map yields the nil interface, for
  which both assertions report \<^verbatim>\<open>ok = false\<close>.
\<close>

datatype jvalue =
    JNull
  | JBool bool
  | JNumber real
  | JString string
  | JArray "jvalue list"
  | JObject "string \<Rightarrow> jvalue option"

type_synonym node = "string \<rightharpoonup> jvalue"

fun asString :: "jvalue option \<Rightarrow> string option" where
  "asString (Some (JString s)) = Some s"
| "asString _ = None"

fun asMap :: "jvalue option \<Rightarrow> (string \<rightharpoonup> jvalue) option" where
  "asMap (Some (JObject m)) = Some m"
| "asMap _ = None"

definition executeWorkflow :: string where
  "executeWorkflow = ''n8n-nodes-base.executeWorkflow''"

definition executeWorkflowTrigger :: string where
  "executeWorkflowTrigger = ''n8n-nodes-base.executeWorkflowTrigger''"

section \<open>Reference extractor (ExtractSubWorkflowIDs)\<close>

text \<open>The loop state is the pair of the result slice \<^verbatim>\<open>ids\<close> and the set \<^verbatim>\<open>seen\<close>.\<close>

definition add_id :: "string \<Rightarrow> string list \<times> string set \<Rightarrow> string list \<times> string set" where
  "add_id wfID st = (case st of (ids, seen) \<Rightarrow>
     if wfID \<notin> seen then (ids @ [wfID], insert wfID seen) else (ids, seen))"

definition extract_direct :: "node \<Rightarrow> string list \<times> string set \<Rightarrow> string list \<times> string set" where
  "extract_direct params st =
     (case asString (params ''workflowId'') of
        Some wfID \<Rightarrow> if wfID \<noteq> [] then add_id wfID st else st
      | None \<Rightarrow> st)"

definition extract_object :: "node \<Rightarrow> string list \<times> string set \<Rightarrow> string list \<times> string set" where
  "extract_object params st =
     (case asMap (params ''workflow'') of
        Some wfl \<Rightarrow>
          (case asString (wfl ''id'') of
             Some wfID \<Rightarrow> if wfID \<noteq> [] then add_id wfID st else st
           | None \<Rightarrow> st)
      | None \<Rightarrow> st)"

definition extract_value :: "node \<Rightarrow> string list \<times> string set \<Rightarrow> string list \<times> string set" where
  "extract_value params st =
     (case asMap (params ''workflowId'') of
        Some wfValue \<Rightarrow>
          (case asString (wfValue ''value'') of
             Some v \<Rightarrow> if v \<noteq> [] then add_id v st else st
           | None \<Rightarrow> st)
      | None \<Rightarrow> st)"

definition extract_node :: "node \<Rightarrow> string list \<times> string set \<Rightarrow> string list \<times> string set" where
  "extract_node nd st =
     (case asString (nd ''type'') of
        None \<Rightarrow> st
      | Some nodeType \<Rightarrow>
          if nodeType = executeWorkflow \<or> nodeType = executeWorkflowTrigger then
            (case asMap (nd ''parameters'') of
               None \<Rightarrow> st
             | Some params \<Rightarrow> extract_value params (extract_object params (extract_direct params st)))
          else st)"

definition ExtractSubWorkflowIDs :: "node list \<Rightarrow> string list" where
  "ExtractSubWorkflowIDs nodes = fst (fold extract_node nodes ([], {}))"

text \<open>
  The contract of the extractor in the words of the specification: the ids a node
  contributes through the three accepted shapes, and first-occurrence deduplication.
\<close>

definition shape_direct :: "node \<Rightarrow> string list" where
  "shape_direct params = (case params ''workflowId'' of Some (JString s) \<Rightarrow> [s] | _ \<Rightarrow> [])"

definition shape_object :: "node \<Rightarrow> string list" where
  "shape_object params =
     (case params ''workflow'' of
        Some (JObject wfl) \<Rightarrow> (case wfl ''id'' of Some (JString s) \<Rightarrow> [s] | _ \<Rightarrow> [])
      | _ \<Rightarrow> [])"

definition shape_value :: "node \<Rightarrow> string list" where
  "shape_value params =
     (case params ''workflowId'' of
        Some (JObject wv) \<Rightarrow> (case wv ''value'' of Some (JString s) \<Rightarrow> [s] | _ \<Rightarrow> [])
      | _ \<Rightarrow> [])"

definition node_references :: "node \<Rightarrow> string list" where
  "node_references nd =
     (if nd ''type'' = Some (JString executeWorkflow) \<or>
         nd ''type'' = Some (JString executeWorkflowTrigger)
      then (case nd ''parameters'' of
              Some (JObject params) \<Rightarrow>
                filter (\<lambda>s. s \<noteq> []) (shape_direct params @ shape_object params @ shape_value params)
            | _ \<Rightarrow> [])
      else [])"

fun first_occurrences :: "'a list \<Rightarrow> 'a list" where
  "first_occurrences [] = []"
| "first_occurrences (x # xs) = x # first_occurrences (filter (\<lambda>y. y \<noteq> x) xs)"

section \<open>Workflow bodies and the reference rewriter (Pusher.updateSubWorkflowReferences)\<close>

text \<open>
  Of \<^verbatim>\<open>api.Workflow\<close> the engine reads the identifier, the name, the active flag and
  the node list; the remaining fields (connections, settings, static data, tags) are
  opaque to the engine, which only carries them along, and are left out of the record. \<^verbatim>\<open>WorkflowMeta\<close> is
  the manifest's entry for one workflow; its fields that share a name with a field of
  \<^verbatim>\<open>Workflow\<close> are written qualified.
\<close>

record WorkflowMeta =
  ID :: string
  Name :: string
  Filename :: string
  Active :: bool

record Workflow =
  ID :: string
  Name :: string
  Active :: bool
  Nodes :: "node list"

text \<open>
  In Go \<^verbatim>\<open>params\<close> and \<^verbatim>\<open>wfObj\<close> are references to the maps stored inside the
  node, so the assignments mutate the node in place and the write-backs
  \<^verbatim>\<open>wf.Nodes[i]["parameters"] = params\<close> store the same reference again. A body decoded
  by \<^verbatim>\<open>json.Unmarshal\<close> is a tree (no map is shared), so the value-passing model
  below, which threads \<^verbatim>\<open>params\<close> and the node, computes the same body.
\<close>

definition update_workflowId ::
  "(string \<rightharpoonup> string) \<Rightarrow> node \<times> node \<Rightarrow> node \<times> node" where
  "update_workflowId idMapping st = (case st of (params, nd) \<Rightarrow>
     (case asString (params ''workflowId'') of
        Some oldID \<Rightarrow>
          (case idMapping oldID of
             Some newID \<Rightarrow>
               (let params' = params(''workflowId'' \<mapsto> JString newID)
                in (params', nd(''parameters'' \<mapsto> JObject params')))
           | None \<Rightarrow> (params, nd))
      | None \<Rightarrow> (params, nd)))"

definition update_workflow_object ::
  "(string \<rightharpoonup> string) \<Rightarrow> node \<times> node \<Rightarrow> node \<times> node" where
  "update_workflow_object idMapping st = (case st of (params, nd) \<Rightarrow>
     (case asMap (params ''workflow'') of
        Some wfObj \<Rightarrow>
          (case asString (wfObj ''id'') of
             Some oldID \<Rightarrow>
               (case idMapping oldID of
                  Some newID \<Rightarrow>
                    (let wfObj' = wfObj(''id'' \<mapsto> JString newID);
                         params' = params(''workflow'' \<mapsto> JObject wfObj')
                     in (params', nd(''parameters'' \<mapsto> JObject params')))
                | None \<Rightarrow> (params, nd))
           | None \<Rightarrow> (params, nd))
      | None \<Rightarrow> (params, nd)))"

definition update_node :: "(string \<rightharpoonup> string) \<Rightarrow> node \<Rightarrow> node" where
  "update_node idMapping nd =
     (case asString (nd ''type'') of
        None \<Rightarrow> nd
      | Some nodeType \<Rightarrow>
          if nodeType \<noteq> executeWorkflow then nd
          else (case asMap (nd ''parameters'') of
                  None \<Rightarrow> nd
                | Some params \<Rightarrow>
                    snd (update_workflow_object idMapping (update_workflowId idMapping (params, nd)))))"

definition updateSubWorkflowReferences ::
  "(string \<rightharpoonup> string) \<Rightarrow> 'a Workflow_scheme \<Rightarrow> 'a Workflow_scheme" where
  "updateSubWorkflowReferences idMapping wfl = wfl\<lparr>Nodes := map (update_node idMapping) (Nodes wfl)\<rparr>"

text \<open>
  The parameter map a node ends with, computed by the two update steps of the source
  (the node component of their state does not influence it).
\<close>

definition params_after :: "(string \<rightharpoonup> string) \<Rightarrow> node \<Rightarrow> node" where
  "params_after tr p = fst (update_workflow_object tr (fst (update_workflowId tr (p, Map.empty)), Map.empty))"

section \<open>Manifest and push order (Manifest.GetPushOrder)\<close>

record Manifest =
  RootWorkflow :: string
  Workflows :: "string \<rightharpoonup> WorkflowMeta"
  Dependencies :: "string \<rightharpoonup> string list"
  Instance :: string

text \<open>
  The local maps \<^verbatim>\<open>inDegree\<close> and \<^verbatim>\<open>dependedBy\<close> are finite maps; reading a missing
  key yields the zero value of the element type (\<^verbatim>\<open>0\<close>, the nil slice). Go's \<^verbatim>\<open>int\<close>
  is modelled as an unbounded integer: the counters are bounded by the number of
  dependency entries of the manifest.
\<close>

definition lookup_int :: "(string, int) fmap \<Rightarrow> string \<Rightarrow> int" where
  "lookup_int m k = (case fmlookup m k of Some v \<Rightarrow> v | None \<Rightarrow> 0)"

definition lookup_list :: "(string, string list) fmap \<Rightarrow> string \<Rightarrow> string list" where
  "lookup_list m k = (case fmlookup m k of Some v \<Rightarrow> v | None \<Rightarrow> [])"

text \<open>
  The language leaves the order in which \<^verbatim>\<open>range\<close> visits the keys of a map
  unspecified, and the runtime varies it from one loop to the next. Each of the three
  \<^verbatim>\<open>range\<close> loops of \<^verbatim>\<open>GetPushOrder\<close> therefore takes the order of its visit as
  an input: a list of the keys of the map it ranges over.
\<close>

record range_order =
  range_Workflows :: "string list"
  range_Dependencies :: "string list"
  range_inDegree :: "string list"

text \<open>First loop: every workflow key gets in-degree zero.\<close>

definition init_inDegree :: "string list \<Rightarrow> (string, int) fmap" where
  "init_inDegree ids = fold (\<lambda>wid inDegree. fmupd wid 0 inDegree) ids fmempty"

text \<open>Second loop, inner part: the dependencies \<^verbatim>\<open>deps\<close> of one workflow \<^verbatim>\<open>id\<close>.\<close>

fun add_dependencies ::
  "(string \<rightharpoonup> WorkflowMeta) \<Rightarrow> string \<Rightarrow> string list \<Rightarrow>
   (string, string list) fmap \<times> (string, int) fmap \<Rightarrow>
   (string, string list) fmap \<times> (string, int) fmap" where
  "add_dependencies W wid [] st = st"
| "add_dependencies W wid (dep # deps) (dependedBy, inDegree) =
     (if W dep \<noteq> None
      then add_dependencies W wid deps
             (fmupd dep (lookup_list dependedBy dep @ [wid]) dependedBy,
              fmupd wid (lookup_int inDegree wid + 1) inDegree)
      else add_dependencies W wid deps (dependedBy, inDegree))"

definition build_graph ::
  "range_order \<Rightarrow> 'a Manifest_scheme \<Rightarrow> (string, string list) fmap \<times> (string, int) fmap" where
  "build_graph ro m =
     fold (\<lambda>wid st. case Dependencies m wid of
                      Some deps \<Rightarrow> add_dependencies (Workflows m) wid deps st
                    | None \<Rightarrow> st)
          (range_Dependencies ro)
          (fmempty, init_inDegree (range_Workflows ro))"

text \<open>Kahn's algorithm, inner loop: the dependents of the node just popped.\<close>

fun reduce_dependents ::
  "string list \<Rightarrow> (string, int) fmap \<times> string list \<Rightarrow> (string, int) fmap \<times> string list" where
  "reduce_dependents [] st = st"
| "reduce_dependents (dpt # rest) (inDegree, queue) =
     (let inDegree' = fmupd dpt (lookup_int inDegree dpt - 1) inDegree
      in reduce_dependents rest
           (inDegree', if lookup_int inDegree' dpt = 0 then queue @ [dpt] else queue))"

definition positive_count :: "(string, int) fmap \<Rightarrow> nat" where
  "positive_count inDegree = card {k. 0 < lookup_int inDegree k}"

lemma lookup_int_fmupd:
  "lookup_int (fmupd k v m) k' = (if k = k' then v else lookup_int m k')"
  by (simp add: lookup_int_def)

lemma finite_positive: "finite {k. 0 < lookup_int inDegree k}"
proof (rule finite_subset)
  show "{k. 0 < lookup_int inDegree k} \<subseteq> fmdom' inDegree"
    by (auto simp: lookup_int_def fmlookup_dom'_iff split: option.splits)
qed simp

lemma positive_count_decrement:
  "positive_count (fmupd d (lookup_int inDegree d - 1) inDegree) =
     (if lookup_int inDegree d = 1 then positive_count inDegree - 1 else positive_count inDegree)"
proof (cases "lookup_int inDegree d = 1")
  case True
  have "{k. 0 < lookup_int (fmupd d (lookup_int inDegree d - 1) inDegree) k}
          = {k. 0 < lookup_int inDegree k} - {d}"
    using True by (auto simp: lookup_int_fmupd)
  then show ?thesis
    using True finite_positive[of inDegree] by (simp add: positive_count_def)
next
  case False
  have "{k. 0 < lookup_int (fmupd d (lookup_int inDegree d - 1) inDegree) k}
          = {k. 0 < lookup_int inDegree k}"
    using False by (auto simp: lookup_int_fmupd)
  then show ?thesis using False by (simp add: positive_count_def)
qed

lemma positive_count_pos: "lookup_int inDegree d = 1 \<Longrightarrow> 0 < positive_count inDegree"
proof -
  assume "lookup_int inDegree d = 1"
  then have "d \<in> {k. 0 < lookup_int inDegree k}" by simp
  then show ?thesis
    unfolding positive_count_def using finite_positive[of inDegree] card_gt_0_iff by blast
qed

lemma reduce_dependents_measure:
  "reduce_dependents ds (inDegree, queue) = (inDegree', queue') \<Longrightarrow>
   positive_count inDegree' + length queue' = positive_count inDegree + length queue"
proof (induction ds arbitrary: inDegree queue)
  case Nil
  then show ?case by simp
next
  case (Cons d ds)
  let ?deg = "fmupd d (lookup_int inDegree d - 1) inDegree"
  let ?q = "if lookup_int ?deg d = 0 then queue @ [d] else queue"
  from Cons.prems have "reduce_dependents ds (?deg, ?q) = (inDegree', queue')"
    by (simp add: Let_def)
  from Cons.IH[OF this]
  have "positive_count inDegree' + length queue' = positive_count ?deg + length ?q" .
  also have "\<dots> = positive_count inDegree + length queue"
    using positive_count_pos[of inDegree d]
    by (auto simp: positive_count_decrement lookup_int_fmupd)
  finally show ?case .
qed

text \<open>Kahn's algorithm, outer loop: runs until the queue is empty.\<close>

function kahn_loop ::
  "(string, string list) fmap \<Rightarrow> string list \<Rightarrow> string list \<Rightarrow> (string, int) fmap \<Rightarrow> string list" where
  "kahn_loop dependedBy order [] inDegree = order"
| "kahn_loop dependedBy order (wid # queue) inDegree =
     (case reduce_dependents (lookup_list dependedBy wid) (inDegree, queue) of
        (inDegree', queue') \<Rightarrow> kahn_loop dependedBy (order @ [wid]) queue' inDegree')"
  by pat_completeness auto
termination
proof (relation "measure (\<lambda>(dependedBy, order, queue, inDegree). positive_count inDegree + length queue)",
    goal_cases)
  case 1
  then show ?case by simp
next
  case 2
  then show ?case
    using reduce_dependents_measure by (fastforce simp: in_measure)
qed

definition GetPushOrder :: "range_order \<Rightarrow> 'a Manifest_scheme \<Rightarrow> string list" where
  "GetPushOrder ro m =
     (case build_graph ro m of
        (dependedBy, inDegree) \<Rightarrow>
          kahn_loop dependedBy []
            (filter (\<lambda>wid. lookup_int inDegree wid = 0) (range_inDegree ro)) inDegree)"

text \<open>
  The visiting orders a run can have: each loop visits every key of its map once.
  The third loop ranges over \<^verbatim>\<open>inDegree\<close> as the second loop left it.
\<close>

definition valid_ranges :: "range_order \<Rightarrow> 'a Manifest_scheme \<Rightarrow> bool" where
  "valid_ranges ro m \<longleftrightarrow>
     distinct (range_Workflows ro) \<and> set (range_Workflows ro) = dom (Workflows m) \<and>
     distinct (range_Dependencies ro) \<and> set (range_Dependencies ro) = dom (Dependencies m) \<and>
     distinct (range_inDegree ro) \<and> set (range_inDegree ro) = fmdom' (snd (build_graph ro m))"

text \<open>
  Auxiliary notions for reasoning about \<^verbatim>\<open>GetPushOrder\<close>. An edge \<open>(b, a)\<close> says that
  workflow \<open>a\<close> lists \<open>b\<close> among its dependencies and \<open>b\<close> is a key of the workflow
  map (dangling references are skipped by the second loop).
\<close>

definition dep_edges :: "'a Manifest_scheme \<Rightarrow> (string \<times> string) set" where
  "dep_edges m = {(b, a). \<exists>deps. Dependencies m a = Some deps \<and> b \<in> set deps \<and> b \<in> dom (Workflows m)}"

definition edges_of :: "(string \<rightharpoonup> WorkflowMeta) \<Rightarrow> string \<Rightarrow> string list \<Rightarrow> (string \<times> string) list" where
  "edges_of W wid deps = map (\<lambda>dep. (dep, wid)) (filter (\<lambda>dep. W dep \<noteq> None) deps)"

definition edge_list :: "range_order \<Rightarrow> 'a Manifest_scheme \<Rightarrow> (string \<times> string) list" where
  "edge_list ro m =
     concat (map (\<lambda>wid. case Dependencies m wid of
                           Some deps \<Rightarrow> edges_of (Workflows m) wid deps
                         | None \<Rightarrow> [])
                 (range_Dependencies ro))"

definition add_edge ::
  "string \<times> string \<Rightarrow> (string, string list) fmap \<times> (string, int) fmap \<Rightarrow>
   (string, string list) fmap \<times> (string, int) fmap" where
  "add_edge e st = (case e of (dep, wid) \<Rightarrow> case st of (dependedBy, inDegree) \<Rightarrow>
     (fmupd dep (lookup_list dependedBy dep @ [wid]) dependedBy,
      fmupd wid (lookup_int inDegree wid + 1) inDegree))"

definition remaining :: "(string \<times> string) list \<Rightarrow> string list \<Rightarrow> string \<Rightarrow> nat" where
  "remaining E order a = length (filter (\<lambda>e. snd e = a \<and> fst e \<notin> set order) E)"

definition precedes :: "'a \<Rightarrow> 'a \<Rightarrow> 'a list \<Rightarrow> bool" where
  \<comment> \<open>\<open>b\<close> occurs in \<open>xs\<close> strictly before the first occurrence of \<open>a\<close>\<close>
  "precedes b a xs \<longleftrightarrow> a \<in> set xs \<and> b \<in> set (takeWhile (\<lambda>x. x \<noteq> a) xs)"

definition kahn_inv ::
  "(string \<times> string) list \<Rightarrow> string set \<Rightarrow> string list \<Rightarrow> string list \<Rightarrow> (string, int) fmap \<Rightarrow> bool" where
  "kahn_inv E N order queue inDegree \<longleftrightarrow>
     distinct (order @ queue) \<and>
     (\<forall>a. lookup_int inDegree a = int (remaining E order a)) \<and>
     (\<forall>a. a \<in> set (order @ queue) \<longleftrightarrow> a \<in> N \<and> (\<forall>b. (b, a) \<in> set E \<longrightarrow> b \<in> set order)) \<and>
     (\<forall>b a. (b, a) \<in> set E \<and> a \<in> set order \<longrightarrow> precedes b a order)"

definition kahn_result :: "(string \<times> string) set \<Rightarrow> string set \<Rightarrow> string list \<Rightarrow> bool" where
  "kahn_result R N res \<longleftrightarrow>
     distinct res \<and>
     (\<forall>a. a \<in> set res \<longleftrightarrow> a \<in> N \<and> (\<forall>b. (b, a) \<in> R \<longrightarrow> b \<in> set res)) \<and>
     (\<forall>b a. (b, a) \<in> R \<and> a \<in> set res \<longrightarrow> precedes b a res)"

definition first_index :: "'a list \<Rightarrow> 'a \<Rightarrow> nat" where
  "first_index xs a = length (takeWhile (\<lambda>x. x \<noteq> a) xs)"

text \<open>Example manifests.\<close>

definition meta_of :: "string \<Rightarrow> WorkflowMeta" where
  "meta_of wid = \<lparr>WorkflowMeta.ID = wid, WorkflowMeta.Name = wid, Filename = wid @ ''.json'',
                  WorkflowMeta.Active = False\<rparr>"

definition manifest_two_cycle :: Manifest where
  \<comment> \<open>workflows A and B, each depending on the other\<close>
  "manifest_two_cycle =
     \<lparr>RootWorkflow = ''A'',
      Workflows = [''A'' \<mapsto> meta_of ''A'', ''B'' \<mapsto> meta_of ''B''],
      Dependencies = [''A'' \<mapsto> [''B''], ''B'' \<mapsto> [''A'']],
      Instance = []\<rparr>"



definition manifest_independent :: Manifest where
  \<comment> \<open>workflows A and B without dependencies\<close>
  "manifest_independent =
     \<lparr>RootWorkflow = ''A'',
      Workflows = [''A'' \<mapsto> meta_of ''A'', ''B'' \<mapsto> meta_of ''B''],
      Dependencies = Map.empty,
      Instance = []\<rparr>"

section \<open>Recursive pull (RecursivePuller.Pull, pullRecursive)\<close>

text \<open>
  The remote collaborator \<^verbatim>\<open>client.GetWorkflow\<close> is an HTTP call: the remote system has
  a state of its own, and two requests for the same identifier within one pull may be
  answered differently. The client is therefore a function from the state of the remote
  and the requested identifier to the answer (the error's message or the workflow body)
  and the next state of the remote.
\<close>

type_synonym 'r client = "'r \<Rightarrow> string \<Rightarrow> (string + Workflow) \<times> 'r"

text \<open>
  The state threaded through the recursion: the two maps of the \<^verbatim>\<open>RecursivePuller\<close>,
  the state of the remote system, and the two effects of the code, each in the order of
  occurrence: the lines written by \<^verbatim>\<open>fmt.Printf\<close>, and the requests sent through
  \<^verbatim>\<open>GetWorkflow\<close>, each with its outcome (\<open>None\<close> for a workflow, the error's
  message otherwise).
\<close>

record 'r RecursivePuller =
  pulled :: "string \<rightharpoonup> Workflow"
  manifest :: Manifest
  printed :: "string list"
  requests :: "(string \<times> string option) list"
  remote_state :: 'r

record PullResult =
  result_Workflows :: "string \<rightharpoonup> Workflow"
  result_Manifest :: Manifest

definition NewRecursivePuller :: "'r \<Rightarrow> 'r RecursivePuller" where
  "NewRecursivePuller r =
     \<lparr>pulled = Map.empty,
      manifest = \<lparr>RootWorkflow = [], Workflows = Map.empty, Dependencies = Map.empty, Instance = []\<rparr>,
      printed = [], requests = [], remote_state = r\<rparr>"

definition fetch_error :: "string \<Rightarrow> string \<Rightarrow> string" where
  \<comment> \<open>\<^verbatim>\<open>fmt.Errorf("failed to get workflow %s: %w", workflowID, err)\<close>\<close>
  "fetch_error workflowID err = ''failed to get workflow '' @ workflowID @ '': '' @ err"

definition warning_line :: "string \<Rightarrow> string \<Rightarrow> string" where
  \<comment> \<open>\<^verbatim>\<open>fmt.Printf("Warning: could not pull sub-workflow %s: %v\n", subID, err)\<close>\<close>
  "warning_line subID err = ''Warning: could not pull sub-workflow '' @ subID @ '': '' @ err @ [CHR 0x0A]"

definition meta_for :: "Workflow \<Rightarrow> WorkflowMeta" where
  "meta_for wfl =
     \<lparr>WorkflowMeta.ID = Workflow.ID wfl, WorkflowMeta.Name = Workflow.Name wfl,
      Filename = SanitizeFilename (Workflow.Name wfl) @ ''.json'',
      WorkflowMeta.Active = Workflow.Active wfl\<rparr>"

text \<open>
  The updates between a successful fetch and the loop over the sub-workflows; \<open>r\<close> is
  the state in which the request left the remote.
\<close>

definition record_workflow :: "string \<Rightarrow> Workflow \<Rightarrow> 'r \<Rightarrow> 'r RecursivePuller \<Rightarrow> 'r RecursivePuller" where
  "record_workflow workflowID wfl r p =
     (let subIDs = ExtractSubWorkflowIDs (Nodes wfl);
          m1 = (manifest p)\<lparr>Workflows := (Workflows (manifest p))(workflowID \<mapsto> meta_for wfl)\<rparr>;
          m2 = (if length subIDs > 0
                then m1\<lparr>Dependencies := (Dependencies m1)(workflowID \<mapsto> subIDs)\<rparr>
                else m1)
      in p\<lparr>pulled := (pulled p)(workflowID \<mapsto> wfl), manifest := m2,
           requests := requests p @ [(workflowID, None)], remote_state := r\<rparr>)"

text \<open>The state after a request that failed: nothing is remembered but the effects.\<close>

definition record_failure :: "string \<Rightarrow> string \<Rightarrow> 'r \<Rightarrow> 'r RecursivePuller \<Rightarrow> 'r RecursivePuller" where
  "record_failure workflowID err r p =
     p\<lparr>requests := requests p @ [(workflowID, Some err)], remote_state := r\<rparr>"

text \<open>
  \<^verbatim>\<open>pullRecursive\<close> calls itself from inside its loop. The model bounds the depth of the
  recursion by a fuel argument and returns \<open>None\<close> when the bound is reached; the loop
  over \<^verbatim>\<open>subIDs\<close> is \<open>pullSubs\<close>. The inner option of \<open>pullRecursive\<close> is the returned
  \<^verbatim>\<open>error\<close> (\<open>None\<close> for \<^verbatim>\<open>nil\<close>).
\<close>

fun pullRecursive ::
    "'r client \<Rightarrow> nat \<Rightarrow> string \<Rightarrow> 'r RecursivePuller \<Rightarrow> (string option \<times> 'r RecursivePuller) option"
  and pullSubs ::
    "'r client \<Rightarrow> nat \<Rightarrow> string list \<Rightarrow> 'r RecursivePuller \<Rightarrow> 'r RecursivePuller option" where
  "pullRecursive c 0 workflowID p = None"
| "pullRecursive c (Suc n) workflowID p =
     (if workflowID \<in> dom (pulled p) then Some (None, p)
      else case c (remote_state p) workflowID of
             (Inl err, r) \<Rightarrow>
               Some (Some (fetch_error workflowID err), record_failure workflowID err r p)
           | (Inr wfl, r) \<Rightarrow>
               (case pullSubs c n (ExtractSubWorkflowIDs (Nodes wfl)) (record_workflow workflowID wfl r p) of
                  None \<Rightarrow> None
                | Some p' \<Rightarrow> Some (None, p')))"
| "pullSubs c n [] p = Some p"
| "pullSubs c n (subID # rest) p =
     (case pullRecursive c n subID p of
        None \<Rightarrow> None
      | Some (None, p') \<Rightarrow> pullSubs c n rest p'
      | Some (Some err, p') \<Rightarrow>
          pullSubs c n rest (p'\<lparr>printed := printed p' @ [warning_line subID err]\<rparr>))"

text \<open>The puller as \<^verbatim>\<open>Pull\<close> hands it to \<^verbatim>\<open>pullRecursive\<close>; \<open>r\<close> is the remote at the start.\<close>

definition initial_puller :: "'r \<Rightarrow> string \<Rightarrow> 'r RecursivePuller" where
  "initial_puller r rootID =
     (NewRecursivePuller r)\<lparr>manifest := (manifest (NewRecursivePuller r))\<lparr>RootWorkflow := rootID\<rparr>\<rparr>"

definition Pull ::
  "'r client \<Rightarrow> nat \<Rightarrow> 'r \<Rightarrow> string \<Rightarrow> ((string + PullResult) \<times> 'r RecursivePuller) option" where
  "Pull c fuel r workflowID =
     (case pullRecursive c fuel workflowID (initial_puller r workflowID) of
        None \<Rightarrow> None
      | Some (Some err, p') \<Rightarrow> Some (Inl err, p')
      | Some (None, p') \<Rightarrow>
          Some (Inr \<lparr>result_Workflows = pulled p', result_Manifest = manifest p'\<rparr>, p'))"

text \<open>
  A set of identifiers is closed for a remote if every workflow the remote can answer
  with, in any of its states, for an identifier of the set references identifiers of the
  set only. A finite closed set that contains the root is a finite reference graph
  around the root; it may have cycles and shared sub-workflows.
\<close>

definition closed_under :: "'r client \<Rightarrow> string set \<Rightarrow> bool" where
  "closed_under c S \<longleftrightarrow>
     (\<forall>r wid wfl r'. wid \<in> S \<and> c r wid = (Inr wfl, r') \<longrightarrow> set (ExtractSubWorkflowIDs (Nodes wfl)) \<subseteq> S)"

text \<open>Example remote systems.\<close>

definition call_node :: "string \<Rightarrow> node" where
  "call_node wid = [''type'' \<mapsto> JString executeWorkflow,
                    ''parameters'' \<mapsto> JObject [''workflowId'' \<mapsto> JString wid]]"

definition workflow_calling :: "string \<Rightarrow> string list \<Rightarrow> Workflow" where
  "workflow_calling wid subs = \<lparr>ID = wid, Name = wid, Active = False, Nodes = map call_node subs\<rparr>"


definition client_partial :: "unit client" where
  \<comment> \<open>A references B and C, B references nothing, fetching C fails\<close>
  "client_partial r wid =
     (if wid = ''A'' then (Inr (workflow_calling ''A'' [''B'', ''C'']), r)
      else if wid = ''B'' then (Inr (workflow_calling ''B'' []), r)
      else (Inl ''not found'', r))"


definition client_flaky :: "bool client" where
  \<comment> \<open>A references C and B, B references C; the remote fails the first request for C
      and answers the second. The state says whether C has been requested.\<close>
  "client_flaky r wid =
     (if wid = ''A'' then (Inr (workflow_calling ''A'' [''C'', ''B'']), r)
      else if wid = ''B'' then (Inr (workflow_calling ''B'' [''C'']), r)
      else if wid = ''C'' then (if r then (Inr (workflow_calling ''C'' []), True)
                               else (Inl ''timeout'', True))
      else (Inl ''not found'', r))"

text \<open>Auxiliary notions for reasoning about the recursive pull.\<close>

definition body_references :: "'r RecursivePuller \<Rightarrow> string \<Rightarrow> string list" where
  \<comment> \<open>the identifiers referenced by the fetched body of a workflow\<close>
  "body_references p wid =
     (case pulled p wid of Some wfl \<Rightarrow> ExtractSubWorkflowIDs (Nodes wfl) | None \<Rightarrow> [])"

definition requested :: "'r RecursivePuller \<Rightarrow> string list" where
  "requested p = map fst (requests p)"

definition pull_inv :: "'r RecursivePuller \<Rightarrow> bool" where
  "pull_inv p \<longleftrightarrow>
     (\<forall>wid. Workflows (manifest p) wid = map_option meta_for (pulled p wid)) \<and>
     (\<forall>wid. Dependencies (manifest p) wid =
              (if body_references p wid \<noteq> [] then Some (body_references p wid) else None)) \<and>
     (\<forall>wid. wid \<in> dom (pulled p) \<longrightarrow> count_list (requests p) (wid, None) = 1) \<and>
     (\<forall>wid. wid \<notin> dom (pulled p) \<longrightarrow> (wid, None) \<notin> set (requests p)) \<and>
     (\<forall>xs ys wid. requests p = xs @ (wid, None) # ys \<longrightarrow> wid \<notin> set (map fst ys))"

definition warned :: "'r RecursivePuller \<Rightarrow> string \<Rightarrow> string \<Rightarrow> bool" where
  "warned p x err \<longleftrightarrow>
     (x, Some err) \<in> set (requests p) \<and> warning_line x (fetch_error x err) \<in> set (printed p)"

definition all_warned :: "'r RecursivePuller \<Rightarrow> bool" where
  "all_warned p \<longleftrightarrow> (\<forall>x err. (x, Some err) \<in> set (requests p) \<longrightarrow> warned p x err)"

definition referred :: "'r RecursivePuller \<Rightarrow> string list \<Rightarrow> bool" where
  \<comment> \<open>every identifier of the list is a reference of a fetched body\<close>
  "referred p xs \<longleftrightarrow> (\<forall>x \<in> set xs. \<exists>a. a \<in> dom (pulled p) \<and> x \<in> set (body_references p a))"

definition all_referred :: "'r RecursivePuller \<Rightarrow> string \<Rightarrow> bool" where
  \<comment> \<open>every failed request was for the root or for a reference of a fetched body\<close>
  "all_referred p rootID \<longleftrightarrow>
     (\<forall>x err. (x, Some err) \<in> set (requests p) \<longrightarrow> x = rootID \<or> referred p [x])"

definition pull_pre :: "string \<Rightarrow> 'r RecursivePuller \<Rightarrow> bool" where
  "pull_pre rootID p \<longleftrightarrow> pull_inv p \<and> all_referred p rootID \<and> all_warned p"

definition extends :: "'r RecursivePuller \<Rightarrow> 'r RecursivePuller \<Rightarrow> bool" where
  "extends p p' \<longleftrightarrow>
     (\<forall>wid \<in> dom (pulled p). pulled p' wid = pulled p wid) \<and>
     set (printed p) \<subseteq> set (printed p') \<and> (\<exists>zs. requests p' = requests p @ zs) \<and>
     RootWorkflow (manifest p') = RootWorkflow (manifest p)"

definition settled :: "'r RecursivePuller \<Rightarrow> string list \<Rightarrow> bool" where
  "settled p xs \<longleftrightarrow> (\<forall>x \<in> set xs. x \<in> dom (pulled p) \<or> (\<exists>err. warned p x err))"

definition closed_new :: "'r RecursivePuller \<Rightarrow> 'r RecursivePuller \<Rightarrow> bool" where
  "closed_new p p' \<longleftrightarrow> (\<forall>a \<in> dom (pulled p') - dom (pulled p). settled p' (body_references p' a))"

definition rec_post ::
  "string set \<Rightarrow> string \<Rightarrow> string \<Rightarrow> 'r RecursivePuller \<Rightarrow> string option \<Rightarrow> 'r RecursivePuller \<Rightarrow> bool" where
  "rec_post S rootID wid p r p' \<longleftrightarrow>
     pull_inv p' \<and> all_referred p' rootID \<and> extends p p' \<and> closed_new p p' \<and>
     dom (pulled p') \<subseteq> dom (pulled p) \<union> S \<and>
     set (requested p') \<subseteq> set (requested p) \<union> S \<and>
     (case r of
        None \<Rightarrow> wid \<in> dom (pulled p') \<and> all_warned p'
      | Some e \<Rightarrow> (\<exists>err r'. e = fetch_error wid err \<and> p' = record_failure wid err r' p))"

definition subs_post ::
  "string set \<Rightarrow> string \<Rightarrow> string list \<Rightarrow> 'r RecursivePuller \<Rightarrow> 'r RecursivePuller \<Rightarrow> bool" where
  "subs_post S rootID xs p p' \<longleftrightarrow>
     pull_pre rootID p' \<and> extends p p' \<and> closed_new p p' \<and>
     dom (pulled p') \<subseteq> dom (pulled p) \<union> S \<and>
     set (requested p') \<subseteq> set (requested p) \<union> S \<and>
     settled p' xs"

text \<open>
  What a run of \<^verbatim>\<open>pullRecursive\<close> can do to the state, whatever the remote answers: the
  log of requests is extended, and an identifier enters the fetched set only if the
  remote answers a request for it with a workflow in at least one of its states.
\<close>

definition grows :: "'r client \<Rightarrow> 'r RecursivePuller \<Rightarrow> 'r RecursivePuller \<Rightarrow> bool" where
  "grows c p p' \<longleftrightarrow>
     (\<exists>zs. requests p' = requests p @ zs) \<and>
     (\<forall>x \<in> dom (pulled p'). x \<in> dom (pulled p) \<or> \<not> (\<forall>r. isl (fst (c r x))))"

text \<open>The state in which a pull ends (the initial one if the fuel does not suffice).\<close>

definition final_puller :: "'r client \<Rightarrow> nat \<Rightarrow> 'r \<Rightarrow> string \<Rightarrow> 'r RecursivePuller" where
  "final_puller c fuel r rootID =
     (case Pull c fuel r rootID of Some (res, p) \<Rightarrow> p | None \<Rightarrow> initial_puller r rootID)"

section \<open>Push of a directory (Pusher.Push, pushDirectory)\<close>

text \<open>
  The collaborators of the push are inputs of the model. A path of the file system holds
  no file, a file that cannot be read (the operating system's reason is kept), or a
  file with its bytes; \<^verbatim>\<open>os.ReadFile\<close> fails in the first two cases. The path join,
  the two uses of \<^verbatim>\<open>json.Unmarshal\<close> and the remote calls are functions of the
  environment; the remote system has a state of its own, which a call may change.
\<close>

datatype file_state = NoSuchFile | Unreadable string | Contents string

definition ReadFile :: "(string \<Rightarrow> file_state) \<Rightarrow> string \<Rightarrow> string + string" where
  "ReadFile files path =
     (case files path of
        NoSuchFile \<Rightarrow> Inl (''open '' @ path @ '': no such file or directory'')
      | Unreadable reason \<Rightarrow> Inl (''open '' @ path @ '': '' @ reason)
      | Contents data \<Rightarrow> Inr data)"

record 'r environment =
  files :: "string \<Rightarrow> file_state"
  Join :: "string \<Rightarrow> string \<Rightarrow> string"
  unmarshal_manifest :: "string \<Rightarrow> string + Manifest"
  unmarshal_workflow :: "string \<Rightarrow> string + Workflow"
  CreateWorkflow :: "'r \<Rightarrow> Workflow \<Rightarrow> (string + Workflow) \<times> 'r"
  UpdateWorkflow :: "'r \<Rightarrow> string \<Rightarrow> Workflow \<Rightarrow> (string + Workflow) \<times> 'r"

text \<open>The state of a push: the translation table, the remote system, the printed lines.\<close>

record 'r Pusher =
  idMapping :: "string \<rightharpoonup> string"
  remote :: 'r
  push_printed :: "string list"

definition NewPusher :: "'r \<Rightarrow> 'r Pusher" where
  "NewPusher r = \<lparr>idMapping = Map.empty, remote = r, push_printed = []\<rparr>"

fun digits :: "nat \<Rightarrow> string" where
  \<comment> \<open>the verb \<^verbatim>\<open>%d\<close> for a non-negative number\<close>
  "digits n = (if n < 10 then [char_of (48 + n)] else digits (n div 10) @ [char_of (48 + n mod 10)])"

text \<open>The body of the loop of \<^verbatim>\<open>Push\<close> over the push order; it stops at the first error.\<close>

fun push_loop ::
  "'r environment \<Rightarrow> string \<Rightarrow> Manifest \<Rightarrow> bool \<Rightarrow> string list \<Rightarrow> 'r Pusher \<Rightarrow> string option \<times> 'r Pusher" where
  "push_loop env dir m create [] st = (None, st)"
| "push_loop env dir m create (wid # rest) st =
     (case Workflows m wid of
        None \<Rightarrow> push_loop env dir m create rest st
      | Some meta \<Rightarrow>
          (case ReadFile (files env) (Join env dir (Filename meta)) of
             Inl err \<Rightarrow> (Some (''failed to read '' @ Filename meta @ '': '' @ err), st)
           | Inr data \<Rightarrow>
               (case unmarshal_workflow env data of
                  Inl err \<Rightarrow> (Some (''failed to parse '' @ Filename meta @ '': '' @ err), st)
                | Inr wfl0 \<Rightarrow>
                    (let wfl = (if create \<and> dom (idMapping st) \<noteq> {}
                                then updateSubWorkflowReferences (idMapping st) wfl0 else wfl0)
                     in if create then
                          (case CreateWorkflow env (remote st) (wfl\<lparr>ID := []\<rparr>) of
                             (Inl err, r) \<Rightarrow>
                               (Some (''failed to create workflow '' @ WorkflowMeta.Name meta @ '': '' @ err),
                                st\<lparr>remote := r\<rparr>)
                           | (Inr created, r) \<Rightarrow>
                               push_loop env dir m create rest
                                 (st\<lparr>idMapping := (idMapping st)(wid \<mapsto> Workflow.ID created),
                                     remote := r,
                                     push_printed := push_printed st @
                                       [''Created: '' @ Workflow.Name created @ '' (ID: '' @
                                        Workflow.ID created @ '')'' @ [CHR 0x0A]]\<rparr>))
                        else
                          (case UpdateWorkflow env (remote st) (Workflow.ID wfl) wfl of
                             (Inl err, r) \<Rightarrow>
                               (Some (''failed to update workflow '' @ WorkflowMeta.Name meta @ '': '' @ err),
                                st\<lparr>remote := r\<rparr>)
                           | (Inr updated, r) \<Rightarrow>
                               push_loop env dir m create rest
                                 (st\<lparr>remote := r,
                                     push_printed := push_printed st @
                                       [''Updated: '' @ Workflow.Name updated @ '' (ID: '' @
                                        Workflow.ID updated @ '')'' @ [CHR 0x0A]]\<rparr>))))))"

definition Push ::
  "'r environment \<Rightarrow> range_order \<Rightarrow> string \<Rightarrow> Manifest \<Rightarrow> bool \<Rightarrow> 'r Pusher \<Rightarrow> string option \<times> 'r Pusher" where
  "Push env ro dir m create st = push_loop env dir m create (GetPushOrder ro m) st"

text \<open>
  \<^verbatim>\<open>pushDirectory\<close> returns the error (\<open>None\<close> for \<^verbatim>\<open>nil\<close>) together with the state
  of the remote system and the lines printed. The error of \<^verbatim>\<open>os.ReadFile\<close> is not
  part of the message the function returns.
\<close>

definition pushDirectory ::
  "'r environment \<Rightarrow> range_order \<Rightarrow> 'r \<Rightarrow> string \<Rightarrow> bool \<Rightarrow> string option \<times> 'r Pusher" where
  "pushDirectory env ro r dir create =
     (case ReadFile (files env) (Join env dir ''manifest.json'') of
        Inl err \<Rightarrow> (Some ''no manifest.json found in directory'', NewPusher r)
      | Inr data \<Rightarrow>
          (case unmarshal_manifest env data of
             Inl err \<Rightarrow> (Some (''failed to parse manifest: '' @ err), NewPusher r)
           | Inr m \<Rightarrow>
               (case Push env ro dir m create (NewPusher r) of
                  (Some err, st) \<Rightarrow> (Some err, st)
                | (None, st) \<Rightarrow>
                    (None, st\<lparr>push_printed := push_printed st @
                       [[CHR 0x0A] @ ''Pushed '' @ digits (card (dom (Workflows m))) @
                        '' workflow(s) successfully.'' @ [CHR 0x0A]]\<rparr>))))"

text \<open>Example environments: a directory without manifest, and one whose manifest cannot be opened.\<close>

definition env_example :: "(string \<Rightarrow> file_state) \<Rightarrow> unit environment" where
  "env_example fs =
     \<lparr>files = fs,
      Join = (\<lambda>dir name. dir @ ''/'' @ name),
      unmarshal_manifest = (\<lambda>data. Inl ''unexpected end of JSON input''),
      unmarshal_workflow = (\<lambda>data. Inl ''unexpected end of JSON input''),
      CreateWorkflow = (\<lambda>r w. (Inl ''unavailable'', r)),
      UpdateWorkflow = (\<lambda>r wid w. (Inl ''unavailable'', r))\<rparr>"

definition fs_absent :: "string \<Rightarrow> file_state" where
  "fs_absent path = NoSuchFile"

definition fs_unreadable :: "string \<Rightarrow> file_state" where
  "fs_unreadable path = (if path = ''flows/manifest.json'' then Unreadable ''permission denied'' else NoSuchFile)"

definition fs_garbled :: "string \<Rightarrow> file_state" where
  "fs_garbled path = (if path = ''flows/manifest.json'' then Contents ''{'' else NoSuchFile)"

definition ro_empty :: range_order where
  "ro_empty = \<lparr>range_Workflows = [], range_Dependencies = [], range_inDegree = []\<rparr>"

section \<open>Properties of the filename sanitizer\<close>

lemma ReplaceAll_space_id: "CHR '' '' \<notin> set s \<Longrightarrow> ReplaceAll_space s = s"
  unfolding ReplaceAll_space_def by (induction s) auto

lemma ReplaceAll_space_no_space: "CHR '' '' \<notin> set (ReplaceAll_space s)"
  unfolding ReplaceAll_space_def by (induction s) auto

lemma remove_unsafe_id: "set s \<inter> set unsafe_chars = {} \<Longrightarrow> remove_unsafe s = s"
  unfolding remove_unsafe_def by (induction s) auto

lemma set_remove_unsafe: "set (remove_unsafe s) = set s - set unsafe_chars"
  unfolding remove_unsafe_def by auto

lemma set_TrimLeft: "set (TrimLeft cs s) \<subseteq> set s"
  unfolding TrimLeft_def by (simp add: set_dropWhileD subsetI)

lemma set_TrimRight: "set (TrimRight cs s) \<subseteq> set s"
  unfolding TrimRight_def using set_dropWhileD[of _ _ "rev s"] by fastforce

lemma set_Trim: "set (Trim cs s) \<subseteq> set s"
  unfolding Trim_def using set_TrimLeft set_TrimRight by blast

lemma set_limit_length: "set (limit_length s) \<subseteq> set s"
  unfolding limit_length_def by (auto dest: in_set_takeD)

lemma length_limit_length: "length (limit_length s) \<le> 200"
  unfolding limit_length_def by auto

lemma limit_length_id: "length s \<le> 200 \<Longrightarrow> limit_length s = s"
  unfolding limit_length_def by auto

lemma TrimLeft_id: "s \<noteq> [] \<Longrightarrow> hd s \<notin> set cs \<Longrightarrow> TrimLeft cs s = s"
  unfolding TrimLeft_def by (cases s) auto

lemma TrimLeft_hd: "TrimLeft cs s \<noteq> [] \<Longrightarrow> hd (TrimLeft cs s) \<notin> set cs"
  unfolding TrimLeft_def using hd_dropWhile by blast

lemma TrimRight_id: "s \<noteq> [] \<Longrightarrow> last s \<notin> set cs \<Longrightarrow> TrimRight cs s = s"
  unfolding TrimRight_def by (cases s rule: rev_cases) auto

lemma TrimRight_shorter:
  assumes "s \<noteq> []" "last s \<in> set cs"
  shows "length (TrimRight cs s) < length s"
proof -
  obtain ys y where snoc: "s = ys @ [y]" using assms(1) by (cases s rule: rev_cases) auto
  with assms(2) have "y \<in> set cs" by simp
  moreover have "length (dropWhile (\<lambda>c. c \<in> set cs) (rev ys)) \<le> length (rev ys)"
    by (rule length_dropWhile_le)
  ultimately show ?thesis
    unfolding TrimRight_def using snoc by simp
qed

lemma TrimRight_hd: "TrimRight cs s \<noteq> [] \<Longrightarrow> hd (TrimRight cs s) = hd s"
  unfolding TrimRight_def
proof -
  assume a: "rev (dropWhile (\<lambda>c. c \<in> set cs) (rev s)) \<noteq> []"
  have "rev s = takeWhile (\<lambda>c. c \<in> set cs) (rev s) @ dropWhile (\<lambda>c. c \<in> set cs) (rev s)"
    by simp
  then have "s = rev (dropWhile (\<lambda>c. c \<in> set cs) (rev s)) @ rev (takeWhile (\<lambda>c. c \<in> set cs) (rev s))"
    by (metis rev_append rev_rev_ident)
  with a show "hd (rev (dropWhile (\<lambda>c. c \<in> set cs) (rev s))) = hd s"
    by (metis hd_append2)
qed

lemma Trim_hd: "Trim cs s \<noteq> [] \<Longrightarrow> hd (Trim cs s) \<notin> set cs"
  unfolding Trim_def
  by (metis TrimLeft_hd TrimRight_hd TrimRight_def dropWhile.simps(1) rev.simps(1))

lemma hd_limit_length: "hd (limit_length s) = hd s"
  unfolding limit_length_def by (cases s) auto

lemma SanitizeFilename_cleaned:
  "SanitizeFilename name = (if cleaned name = [] then ''workflow'' else cleaned name)"
  unfolding SanitizeFilename_def cleaned_def Let_def by simp

lemma cleaned_props:
  "CHR '' '' \<notin> set (cleaned n)" "set (cleaned n) \<inter> set unsafe_chars = {}"
  "length (cleaned n) \<le> 200" "cleaned n \<noteq> [] \<Longrightarrow> hd (cleaned n) \<notin> set ''. ''"
proof -
  have sub: "set (cleaned n) \<subseteq> set (remove_unsafe (ReplaceAll_space n))"
    unfolding cleaned_def using set_limit_length set_Trim by blast
  show "CHR '' '' \<notin> set (cleaned n)"
    using sub ReplaceAll_space_no_space[of n] by (auto simp: set_remove_unsafe)
  show "set (cleaned n) \<inter> set unsafe_chars = {}"
    using sub by (auto simp: set_remove_unsafe)
  show "length (cleaned n) \<le> 200" unfolding cleaned_def by (rule length_limit_length)
  show "cleaned n \<noteq> [] \<Longrightarrow> hd (cleaned n) \<notin> set ''. ''"
    unfolding cleaned_def using Trim_hd[of "''. ''" "remove_unsafe (ReplaceAll_space n)"]
    by (metis hd_limit_length limit_length_def take_eq_Nil2 list.size(3) not_less_zero zero_neq_numeral)
qed

lemma SanitizeFilename_workflow: "SanitizeFilename ''workflow'' = ''workflow''"
  by code_simp

lemma length_TrimRight: "length (TrimRight cs s) \<le> length s"
  unfolding TrimRight_def using length_dropWhile_le[of _ "rev s"] by simp

lemma cleaned_stable:
  assumes "CHR '' '' \<notin> set r" "set r \<inter> set unsafe_chars = {}" "length r \<le> 200"
    "r \<noteq> []" "hd r \<notin> set ''. ''"
  shows "cleaned r = TrimRight ''. '' r"
proof -
  have "length (TrimRight ''. '' r) \<le> 200"
    using length_TrimRight[of "''. ''" r] assms(3) by linarith
  then have "limit_length (TrimRight ''. '' r) = TrimRight ''. '' r"
    by (rule limit_length_id)
  moreover have "Trim ''. '' r = TrimRight ''. '' r"
    unfolding Trim_def using TrimLeft_id[OF assms(4,5)] by simp
  ultimately show ?thesis
    unfolding cleaned_def using assms(1,2) by (simp add: ReplaceAll_space_id remove_unsafe_id)
qed

lemma SanitizeFilename_twice:
  "SanitizeFilename (SanitizeFilename n) = SanitizeFilename n
     \<longleftrightarrow> last (SanitizeFilename n) \<noteq> CHR ''.''"
proof (cases "cleaned n = []")
  case True
  then have "SanitizeFilename n = ''workflow''" by (simp add: SanitizeFilename_cleaned)
  then show ?thesis by (simp add: SanitizeFilename_workflow)
next
  case False
  let ?r = "cleaned n"
  have r: "SanitizeFilename n = ?r" using False by (simp add: SanitizeFilename_cleaned)
  have st: "cleaned ?r = TrimRight ''. '' ?r"
    using cleaned_props[of n] False by (intro cleaned_stable) auto
  have nosp: "last ?r \<noteq> CHR '' ''"
    using cleaned_props(1)[of n] False last_in_set by metis
  show ?thesis
  proof (cases "last ?r = CHR ''.''")
    case True
    then have lt: "length (cleaned ?r) < length ?r"
      using TrimRight_shorter[OF False, of "''. ''"] st by simp
    have "SanitizeFilename ?r \<noteq> ?r"
    proof (cases "cleaned ?r = []")
      case True
      then have "SanitizeFilename ?r = ''workflow''" by (simp add: SanitizeFilename_cleaned)
      moreover have "last ''workflow'' \<noteq> CHR ''.''" by simp
      ultimately show ?thesis using \<open>last ?r = CHR ''.''\<close> by metis
    next
      case False
      then have "SanitizeFilename ?r = cleaned ?r" by (simp add: SanitizeFilename_cleaned)
      then show ?thesis using lt by auto
    qed
    then show ?thesis using r True by simp
  next
    case F2: False
    then have "TrimRight ''. '' ?r = ?r"
      using nosp False by (intro TrimRight_id) auto
    then have "SanitizeFilename ?r = ?r"
      using st False by (simp add: SanitizeFilename_cleaned)
    then show ?thesis using r F2 by simp
  qed
qed

lemma Trim_last:
  assumes "Trim cs s \<noteq> []"
  shows "last (Trim cs s) \<notin> set cs"
proof -
  let ?d = "dropWhile (\<lambda>c. c \<in> set cs) (rev (TrimLeft cs s))"
  have ne: "?d \<noteq> []" using assms unfolding Trim_def TrimRight_def by simp
  then have "hd ?d \<notin> set cs" using hd_dropWhile by blast
  moreover have "last (Trim cs s) = hd ?d"
    unfolding Trim_def TrimRight_def using ne by (simp add: last_rev)
  ultimately show ?thesis by simp
qed

lemma SanitizeFilename_short:
  assumes "length (Trim ''. '' (remove_unsafe (ReplaceAll_space n))) \<le> 200"
  shows "last (SanitizeFilename n) \<noteq> CHR ''.''"
proof (cases "cleaned n = []")
  case True
  then show ?thesis by (simp add: SanitizeFilename_cleaned)
next
  case False
  let ?t = "Trim ''. '' (remove_unsafe (ReplaceAll_space n))"
  have c: "cleaned n = ?t" unfolding cleaned_def using assms by (rule limit_length_id)
  with False have "last ?t \<notin> set ''. ''" by (intro Trim_last) simp
  then show ?thesis using c False by (simp add: SanitizeFilename_cleaned)
qed

text \<open>
  Claim C7 (as amended). Sanitising a sanitised name returns it unchanged exactly when
  the sanitised name does not end in a dot. A trailing dot can only be left behind by
  the truncation to 200 bytes, which runs after the trimming; so every name whose
  replaced, filtered and trimmed form has at most 200 bytes is a fixed point after one
  pass.
\<close>

theorem SanitizeFilename_idempotent_iff_no_trailing_dot:
  "(SanitizeFilename (SanitizeFilename n) = SanitizeFilename n
      \<longleftrightarrow> last (SanitizeFilename n) \<noteq> CHR ''.'') \<and>
   (length (Trim ''. '' (remove_unsafe (ReplaceAll_space n))) \<le> 200
      \<longrightarrow> SanitizeFilename (SanitizeFilename n) = SanitizeFilename n)"
  using SanitizeFilename_twice[of n] SanitizeFilename_short[of n] by blast

theorem SanitizeFilename_idempotent_witness:
  "length (Trim ''. '' (remove_unsafe (ReplaceAll_space ''My Flow: v2?.''))) \<le> 200 \<and>
   SanitizeFilename ''My Flow: v2?.'' = ''My_Flow_v2'' \<and>
   SanitizeFilename (SanitizeFilename ''My Flow: v2?.'') = SanitizeFilename ''My Flow: v2?.''"
proof -
  have l: "length (Trim ''. '' (remove_unsafe (ReplaceAll_space ''My Flow: v2?.''))) \<le> 200"
    by code_simp
  have v: "SanitizeFilename ''My Flow: v2?.'' = ''My_Flow_v2''"
    by code_simp
  from SanitizeFilename_idempotent_iff_no_trailing_dot[of "''My Flow: v2?.''"] l v
  show ?thesis by blast
qed

text \<open>
  The claim as stated fails: a name of 199 letters followed by \<^verbatim>\<open>.b\<close> is cut to 200
  bytes after the trimming, which leaves a trailing dot that the second pass removes.
\<close>

theorem SanitizeFilename_idempotent_counterexample:
  "SanitizeFilename (SanitizeFilename (replicate 199 CHR ''a'' @ ''.b''))
     \<noteq> SanitizeFilename (replicate 199 CHR ''a'' @ ''.b'')"
proof -
  have a: "SanitizeFilename (replicate 199 CHR ''a'' @ ''.b'') = replicate 199 CHR ''a'' @ ''.''"
    by code_simp
  have b: "SanitizeFilename (replicate 199 CHR ''a'' @ ''.'') = replicate 199 CHR ''a''"
    by code_simp
  show ?thesis unfolding a b by simp
qed

section \<open>Properties of the reference extractor\<close>

lemma extract_direct_fold: "extract_direct params st = fold add_id (filter (\<lambda>s. s \<noteq> []) (shape_direct params)) st"
  unfolding extract_direct_def shape_direct_def
  by (cases "params ''workflowId''" rule: asString.cases) auto

lemma extract_object_fold: "extract_object params st = fold add_id (filter (\<lambda>s. s \<noteq> []) (shape_object params)) st"
proof (cases "params ''workflow''" rule: asMap.cases)
  case (1 m)
  then show ?thesis
    unfolding extract_object_def shape_object_def
    by (cases "m ''id''" rule: asString.cases) auto
qed (auto simp: extract_object_def shape_object_def)

lemma extract_value_fold: "extract_value params st = fold add_id (filter (\<lambda>s. s \<noteq> []) (shape_value params)) st"
proof (cases "params ''workflowId''" rule: asMap.cases)
  case (1 m)
  then show ?thesis
    unfolding extract_value_def shape_value_def
    by (cases "m ''value''" rule: asString.cases) auto
qed (auto simp: extract_value_def shape_value_def)

lemma asString_Some_iff: "asString v = Some s \<longleftrightarrow> v = Some (JString s)"
  by (cases v rule: asString.cases) auto

lemma asMap_Some_iff: "asMap v = Some m \<longleftrightarrow> v = Some (JObject m)"
  by (cases v rule: asMap.cases) auto

lemma asString_None_iff: "asString v = None \<longleftrightarrow> (\<forall>s. v \<noteq> Some (JString s))"
  by (cases v rule: asString.cases) auto

lemma asMap_None_iff: "asMap v = None \<longleftrightarrow> (\<forall>m. v \<noteq> Some (JObject m))"
  by (cases v rule: asMap.cases) auto

lemma extract_node_fold: "extract_node nd st = fold add_id (node_references nd) st"
proof (cases "asString (nd ''type'')")
  case None
  then have "extract_node nd st = st" by (simp add: extract_node_def)
  moreover have "node_references nd = []"
    using None by (auto simp: node_references_def asString_None_iff)
  ultimately show ?thesis by simp
next
  case (Some t)
  then have t: "nd ''type'' = Some (JString t)" by (simp add: asString_Some_iff)
  show ?thesis
  proof (cases "t = executeWorkflow \<or> t = executeWorkflowTrigger")
    case False
    then show ?thesis using t by (auto simp: extract_node_def node_references_def)
  next
    case True
    show ?thesis
    proof (cases "asMap (nd ''parameters'')")
      case None
      then have "extract_node nd st = st" using t True by (auto simp: extract_node_def)
      moreover have "node_references nd = []"
        using None by (auto simp: node_references_def asMap_None_iff split: option.splits jvalue.splits)
      ultimately show ?thesis by simp
    next
      case (Some params)
      then have "nd ''parameters'' = Some (JObject params)" by (simp add: asMap_Some_iff)
      then show ?thesis using t True
        by (auto simp: extract_node_def node_references_def extract_direct_fold
            extract_object_fold extract_value_fold)
    qed
  qed
qed

lemma fold_extract_node: "fold extract_node nodes st = fold add_id (concat (map node_references nodes)) st"
  by (induction nodes arbitrary: st) (auto simp: extract_node_fold)

lemma fold_add_id:
  "fold add_id xs (ids, set ids) =
     (ids @ first_occurrences (filter (\<lambda>x. x \<notin> set ids) xs), set ids \<union> set xs)"
proof (induction xs arbitrary: ids)
  case Nil
  then show ?case by simp
next
  case (Cons x xs)
  show ?case
  proof (cases "x \<in> set ids")
    case True
    then show ?thesis using Cons[of ids] by (auto simp: add_id_def)
  next
    case False
    have f: "filter (\<lambda>y. y \<notin> set (ids @ [x])) xs = filter (\<lambda>y. y \<noteq> x) (filter (\<lambda>y. y \<notin> set ids) xs)"
      by (induction xs) auto
    have "add_id x (ids, set ids) = (ids @ [x], set (ids @ [x]))"
      using False by (simp add: add_id_def)
    then show ?thesis using Cons[of "ids @ [x]"] False f by auto
  qed
qed

lemma set_first_occurrences: "set (first_occurrences xs) = set xs"
proof (induction xs rule: first_occurrences.induct)
  case 1
  then show ?case by simp
next
  case (2 x xs)
  then show ?case by auto
qed

lemma distinct_first_occurrences: "distinct (first_occurrences xs)"
proof (induction xs rule: first_occurrences.induct)
  case 1
  then show ?case by simp
next
  case (2 x xs)
  then show ?case by (auto simp: set_first_occurrences)
qed

lemma ExtractSubWorkflowIDs_eq:
  "ExtractSubWorkflowIDs nodes = first_occurrences (concat (map node_references nodes))"
  unfolding ExtractSubWorkflowIDs_def fold_extract_node
  using fold_add_id[of "concat (map node_references nodes)" "[]"] by simp

lemma set_ExtractSubWorkflowIDs:
  "set (ExtractSubWorkflowIDs nodes) = (\<Union>nd \<in> set nodes. set (node_references nd))"
  by (simp add: ExtractSubWorkflowIDs_eq set_first_occurrences)

text \<open>
  Claim C4. The extractor returns the ids referenced by the nodes, in first-occurrence
  order and without duplicates: a node contributes only if its type tag is one of the two
  execute-sub-workflow markers and its parameters are an object, through the three shapes
  (direct string, \<^verbatim>\<open>workflow.id\<close>, \<^verbatim>\<open>workflowId.value\<close>), empty ids dropped; any
  other node contributes nothing. The function is total: no input makes it fail.
\<close>

theorem ExtractSubWorkflowIDs_first_occurrences:
  "ExtractSubWorkflowIDs nodes = first_occurrences (concat (map node_references nodes)) \<and>
   distinct (ExtractSubWorkflowIDs nodes) \<and>
   [] \<notin> set (ExtractSubWorkflowIDs nodes)"
proof -
  have e: "ExtractSubWorkflowIDs nodes = first_occurrences (concat (map node_references nodes))"
    by (rule ExtractSubWorkflowIDs_eq)
  moreover have "distinct (ExtractSubWorkflowIDs nodes)"
    unfolding e by (rule distinct_first_occurrences)
  moreover have "[] \<notin> set (ExtractSubWorkflowIDs nodes)"
    unfolding e set_first_occurrences
    by (auto simp: node_references_def split: if_splits option.splits jvalue.splits)
  ultimately show ?thesis by blast
qed

theorem ExtractSubWorkflowIDs_witness:
  "ExtractSubWorkflowIDs
     [[''type'' \<mapsto> JString ''n8n-nodes-base.executeWorkflow'',
       ''parameters'' \<mapsto> JObject [''workflowId'' \<mapsto> JString ''b'',
                                       ''workflow'' \<mapsto> JObject [''id'' \<mapsto> JString ''c'']]],
      [''type'' \<mapsto> JString ''n8n-nodes-base.set'',
       ''parameters'' \<mapsto> JObject [''workflowId'' \<mapsto> JString ''z'']],
      [''type'' \<mapsto> JString ''n8n-nodes-base.executeWorkflowTrigger'',
       ''parameters'' \<mapsto> JObject [''workflowId'' \<mapsto> JObject [''value'' \<mapsto> JString ''b'']]],
      [''type'' \<mapsto> JString ''n8n-nodes-base.executeWorkflow'',
       ''parameters'' \<mapsto> JObject [''workflowId'' \<mapsto> JObject [''value'' \<mapsto> JString ''d''],
                                       ''workflow'' \<mapsto> JString ''e'']],
      [''type'' \<mapsto> JString ''n8n-nodes-base.executeWorkflow'',
       ''parameters'' \<mapsto> JObject [''workflowId'' \<mapsto> JString []]]]
   = [''b'', ''c'', ''d'']"
  by (simp add: ExtractSubWorkflowIDs_first_occurrences node_references_def shape_direct_def
      shape_object_def shape_value_def executeWorkflow_def executeWorkflowTrigger_def)

section \<open>Properties of the reference rewriter\<close>

lemma update_workflowId_params:
  "fst (update_workflowId tr (p, nd)) =
     (case p ''workflowId'' of
        Some (JString old) \<Rightarrow> (case tr old of Some new \<Rightarrow> p(''workflowId'' \<mapsto> JString new) | None \<Rightarrow> p)
      | _ \<Rightarrow> p)"
  unfolding update_workflowId_def
  by (cases "p ''workflowId''" rule: asString.cases) (auto simp: Let_def split: option.splits)

lemma update_workflowId_node:
  assumes "nd ''parameters'' = Some (JObject p)"
  shows "snd (update_workflowId tr (p, nd)) = nd(''parameters'' \<mapsto> JObject (fst (update_workflowId tr (p, nd))))"
  using assms unfolding update_workflowId_def
  by (cases "p ''workflowId''" rule: asString.cases)
     (auto simp: Let_def map_upd_triv split: option.splits)

lemma update_workflow_object_params:
  "fst (update_workflow_object tr (p, nd)) =
     (case p ''workflow'' of
        Some (JObject wo) \<Rightarrow>
          (case wo ''id'' of
             Some (JString old) \<Rightarrow>
               (case tr old of
                  Some new \<Rightarrow> p(''workflow'' \<mapsto> JObject (wo(''id'' \<mapsto> JString new)))
                | None \<Rightarrow> p)
           | _ \<Rightarrow> p)
      | _ \<Rightarrow> p)"
proof (cases "p ''workflow''" rule: asMap.cases)
  case (1 wo)
  then show ?thesis
    unfolding update_workflow_object_def
    by (cases "wo ''id''" rule: asString.cases) (auto simp: Let_def split: option.splits)
qed (auto simp: update_workflow_object_def)

lemma update_workflow_object_node:
  assumes "nd ''parameters'' = Some (JObject p)"
  shows "snd (update_workflow_object tr (p, nd)) =
           nd(''parameters'' \<mapsto> JObject (fst (update_workflow_object tr (p, nd))))"
proof (cases "p ''workflow''" rule: asMap.cases)
  case (1 wo)
  then show ?thesis
    using assms unfolding update_workflow_object_def
    by (cases "wo ''id''" rule: asString.cases) (auto simp: Let_def map_upd_triv split: option.splits)
qed (use assms in \<open>auto simp: update_workflow_object_def map_upd_triv\<close>)

lemma update_node_other:
  assumes "nd ''type'' \<noteq> Some (JString executeWorkflow)"
  shows "update_node tr nd = nd"
  using assms unfolding update_node_def
  by (cases "nd ''type''" rule: asString.cases) auto

lemma update_node_no_params:
  assumes "\<forall>p. nd ''parameters'' \<noteq> Some (JObject p)"
  shows "update_node tr nd = nd"
proof -
  have "asMap (nd ''parameters'') = None" using assms by (cases "nd ''parameters''" rule: asMap.cases) auto
  then show ?thesis unfolding update_node_def by (auto split: option.splits)
qed

lemma fst_update_workflowId_indep:
  "fst (update_workflowId tr (p, nd)) = fst (update_workflowId tr (p, nd2))"
  by (simp add: update_workflowId_params)

lemma fst_update_workflow_object_indep:
  "fst (update_workflow_object tr (p, nd)) = fst (update_workflow_object tr (p, nd2))"
  by (simp add: update_workflow_object_params)

lemma update_node_exec:
  assumes "nd ''type'' = Some (JString executeWorkflow)" "nd ''parameters'' = Some (JObject p)"
  shows "update_node tr nd = nd(''parameters'' \<mapsto> JObject (params_after tr p))"
proof -
  let ?s1 = "update_workflowId tr (p, nd)"
  have s1: "?s1 = (fst ?s1, nd(''parameters'' \<mapsto> JObject (fst ?s1)))"
    using update_workflowId_node[where nd=nd and p=p and tr=tr] assms(2) by (metis prod.collapse)
  let ?nd1 = "nd(''parameters'' \<mapsto> JObject (fst ?s1))"
  have p1: "?nd1 ''parameters'' = Some (JObject (fst ?s1))" by simp
  have "snd (update_workflow_object tr ?s1) = snd (update_workflow_object tr (fst ?s1, ?nd1))"
    using s1 by simp
  also have "\<dots> = ?nd1(''parameters'' \<mapsto> JObject (fst (update_workflow_object tr (fst ?s1, ?nd1))))"
    using update_workflow_object_node[where nd="?nd1" and p="fst ?s1" and tr=tr] p1 by blast
  also have "\<dots> = nd(''parameters'' \<mapsto> JObject (fst (update_workflow_object tr (fst ?s1, ?nd1))))"
    by simp
  also have "fst (update_workflow_object tr (fst ?s1, ?nd1)) = params_after tr p"
    unfolding params_after_def
    using fst_update_workflow_object_indep[of tr "fst ?s1" ?nd1 Map.empty]
      fst_update_workflowId_indep[of tr p nd Map.empty] by simp
  finally have r: "snd (update_workflow_object tr ?s1) = nd(''parameters'' \<mapsto> JObject (params_after tr p))" .
  have "update_node tr nd = snd (update_workflow_object tr ?s1)"
    using assms unfolding update_node_def by simp
  then show ?thesis by (simp only: r)
qed

lemma params_after_frame:
  "k \<noteq> ''workflowId'' \<Longrightarrow> k \<noteq> ''workflow'' \<Longrightarrow> params_after tr p k = p k"
  unfolding params_after_def update_workflow_object_params update_workflowId_params
  by (auto split: option.splits jvalue.splits)

lemma params_after_workflowId:
  "params_after tr p ''workflowId'' =
     (case p ''workflowId'' of
        Some (JString old) \<Rightarrow> Some (JString (case tr old of Some new \<Rightarrow> new | None \<Rightarrow> old))
      | v \<Rightarrow> v)"
  unfolding params_after_def update_workflow_object_params update_workflowId_params
  by (auto split: option.splits jvalue.splits)

lemma params_after_workflow:
  "params_after tr p ''workflow'' =
     (case p ''workflow'' of
        Some (JObject wo) \<Rightarrow>
          (case wo ''id'' of
             Some (JString old) \<Rightarrow>
               Some (JObject (wo(''id'' \<mapsto> JString (case tr old of Some new \<Rightarrow> new | None \<Rightarrow> old))))
           | _ \<Rightarrow> Some (JObject wo))
      | v \<Rightarrow> v)"
  unfolding params_after_def update_workflow_object_params update_workflowId_params
  by (auto simp: map_upd_triv split: option.splits jvalue.splits)

lemma Nodes_update_nth:
  "i < length (Nodes w) \<Longrightarrow>
   Nodes (updateSubWorkflowReferences tr w) ! i = update_node tr (Nodes w ! i)"
  by (simp add: updateSubWorkflowReferences_def)

lemma executeWorkflow_neq_trigger: "executeWorkflowTrigger \<noteq> executeWorkflow"
  by (simp add: executeWorkflow_def executeWorkflowTrigger_def)

lemma node_references_value:
  assumes "nd ''type'' = Some (JString executeWorkflow) \<or> nd ''type'' = Some (JString executeWorkflowTrigger)"
    and "nd ''parameters'' = Some (JObject p)" and "p ''workflowId'' = Some (JObject wv)"
    and "wv ''value'' = Some (JString v)" and "v \<noteq> []"
  shows "v \<in> set (node_references nd)"
  using assms by (auto simp: node_references_def shape_value_def)

lemma update_node_type: "update_node tr nd ''type'' = nd ''type''"
proof (cases "nd ''type'' = Some (JString executeWorkflow) \<and> (\<exists>p. nd ''parameters'' = Some (JObject p))")
  case True
  then show ?thesis using update_node_exec[where nd=nd and tr=tr] by auto
next
  case False
  then show ?thesis using update_node_other[of nd tr] update_node_no_params[of nd tr] by auto
qed

lemma update_node_value_shape:
  assumes "nd ''parameters'' = Some (JObject p)" "p ''workflowId'' = Some (JObject wv)"
  shows "\<exists>p'. update_node tr nd ''parameters'' = Some (JObject p') \<and> p' ''workflowId'' = Some (JObject wv)"
proof (cases "nd ''type'' = Some (JString executeWorkflow)")
  case True
  then have "update_node tr nd = nd(''parameters'' \<mapsto> JObject (params_after tr p))"
    using update_node_exec[where nd=nd and tr=tr and p=p] assms(1) by simp
  moreover have "params_after tr p ''workflowId'' = Some (JObject wv)"
    using assms(2) by (simp add: params_after_workflowId)
  ultimately show ?thesis by simp
next
  case False
  then show ?thesis using update_node_other[of nd tr] assms by simp
qed

text \<open>
  Claim C5. The rewriter keeps the node list's length and changes only nodes whose type
  tag is the non-trigger execute-sub-workflow marker (a trigger node, like any other
  node, is returned as it is). In such a node with a parameter object, a direct
  \<^verbatim>\<open>workflowId\<close> string that is a key of the translation table is replaced by the
  mapped id, the \<^verbatim>\<open>id\<close> string of a nested \<^verbatim>\<open>workflow\<close> object that is a key is
  replaced by the mapped id, an id without an entry stays as it is, and every other
  parameter and every other field of the node is untouched.
\<close>

theorem updateSubWorkflowReferences_rewrites:
  assumes "i < length (Nodes w)"
  shows
   "length (Nodes (updateSubWorkflowReferences tr w)) = length (Nodes w) \<and>
    ((Nodes w ! i) ''type'' \<noteq> Some (JString executeWorkflow) \<longrightarrow>
       Nodes (updateSubWorkflowReferences tr w) ! i = Nodes w ! i) \<and>
    ((Nodes w ! i) ''type'' = Some (JString executeWorkflowTrigger) \<longrightarrow>
       Nodes (updateSubWorkflowReferences tr w) ! i = Nodes w ! i) \<and>
    (\<forall>p. (Nodes w ! i) ''type'' = Some (JString executeWorkflow) \<and>
         (Nodes w ! i) ''parameters'' = Some (JObject p) \<longrightarrow>
       (\<exists>p'. Nodes (updateSubWorkflowReferences tr w) ! i = (Nodes w ! i)(''parameters'' \<mapsto> JObject p') \<and>
          (\<forall>old new. p ''workflowId'' = Some (JString old) \<and> tr old = Some new \<longrightarrow>
             p' ''workflowId'' = Some (JString new)) \<and>
          (\<forall>old. p ''workflowId'' = Some (JString old) \<and> tr old = None \<longrightarrow>
             p' ''workflowId'' = Some (JString old)) \<and>
          (\<forall>wo old new. p ''workflow'' = Some (JObject wo) \<and> wo ''id'' = Some (JString old) \<and>
               tr old = Some new \<longrightarrow>
             p' ''workflow'' = Some (JObject (wo(''id'' \<mapsto> JString new)))) \<and>
          (\<forall>wo old. p ''workflow'' = Some (JObject wo) \<and> wo ''id'' = Some (JString old) \<and>
               tr old = None \<longrightarrow>
             p' ''workflow'' = Some (JObject wo)) \<and>
          (\<forall>k. k \<noteq> ''workflowId'' \<and> k \<noteq> ''workflow'' \<longrightarrow> p' k = p k)))"
proof -
  let ?nd = "Nodes w ! i"
  let ?nd' = "Nodes (updateSubWorkflowReferences tr w) ! i"
  have nth: "?nd' = update_node tr ?nd" using assms by (rule Nodes_update_nth)
  have len: "length (Nodes (updateSubWorkflowReferences tr w)) = length (Nodes w)"
    by (simp add: updateSubWorkflowReferences_def)
  have other: "?nd ''type'' \<noteq> Some (JString executeWorkflow) \<longrightarrow> ?nd' = ?nd"
    using nth update_node_other by simp
  have trig: "?nd ''type'' = Some (JString executeWorkflowTrigger) \<longrightarrow> ?nd' = ?nd"
    using other executeWorkflow_neq_trigger by auto
  have exec: "\<exists>p'. ?nd' = ?nd(''parameters'' \<mapsto> JObject p') \<and>
          (\<forall>old new. p ''workflowId'' = Some (JString old) \<and> tr old = Some new \<longrightarrow>
             p' ''workflowId'' = Some (JString new)) \<and>
          (\<forall>old. p ''workflowId'' = Some (JString old) \<and> tr old = None \<longrightarrow>
             p' ''workflowId'' = Some (JString old)) \<and>
          (\<forall>wo old new. p ''workflow'' = Some (JObject wo) \<and> wo ''id'' = Some (JString old) \<and>
               tr old = Some new \<longrightarrow>
             p' ''workflow'' = Some (JObject (wo(''id'' \<mapsto> JString new)))) \<and>
          (\<forall>wo old. p ''workflow'' = Some (JObject wo) \<and> wo ''id'' = Some (JString old) \<and>
               tr old = None \<longrightarrow>
             p' ''workflow'' = Some (JObject wo)) \<and>
          (\<forall>k. k \<noteq> ''workflowId'' \<and> k \<noteq> ''workflow'' \<longrightarrow> p' k = p k)"
    if t: "?nd ''type'' = Some (JString executeWorkflow)" and ps: "?nd ''parameters'' = Some (JObject p)"
    for p
  proof (intro exI[of _ "params_after tr p"] conjI allI impI)
    show "?nd' = ?nd(''parameters'' \<mapsto> JObject (params_after tr p))"
      using nth update_node_exec[where nd="?nd" and p=p and tr=tr] t ps by simp
  qed (auto simp: params_after_workflowId params_after_workflow params_after_frame map_upd_triv)
  show ?thesis using len other trig exec by blast
qed

theorem updateSubWorkflowReferences_witness:
  "\<exists>p'. Nodes (updateSubWorkflowReferences [''old1'' \<mapsto> ''new1'']
            \<lparr>ID = ''7'', Name = ''parent'', Active = True,
             Nodes = [[''type'' \<mapsto> JString executeWorkflow,
                       ''parameters'' \<mapsto> JObject [''workflowId'' \<mapsto> JString ''old1'',
                          ''workflow'' \<mapsto> JObject [''id'' \<mapsto> JString ''shared'']]]]\<rparr>) ! 0
        = [''type'' \<mapsto> JString executeWorkflow, ''parameters'' \<mapsto> JObject p'] \<and>
        p' ''workflowId'' = Some (JString ''new1'') \<and>
        p' ''workflow'' = Some (JObject [''id'' \<mapsto> JString ''shared''])"
  using updateSubWorkflowReferences_rewrites[of 0
          "\<lparr>ID = ''7'', Name = ''parent'', Active = True,
             Nodes = [[''type'' \<mapsto> JString executeWorkflow,
                       ''parameters'' \<mapsto> JObject [''workflowId'' \<mapsto> JString ''old1'',
                          ''workflow'' \<mapsto> JObject [''id'' \<mapsto> JString ''shared'']]]]\<rparr>"
          "[''old1'' \<mapsto> ''new1'']"]
  by (auto simp: fun_upd_twist)

text \<open>
  Claim C10. A node whose \<^verbatim>\<open>workflowId\<close> parameter is an object (the expression-mode
  shape carrying the id in its \<^verbatim>\<open>value\<close> string) keeps that object unchanged under
  the rewriter for every translation table, also one that maps the id; the extractor
  nevertheless reports the id for such a node, before and after the rewrite.
\<close>

theorem updateSubWorkflowReferences_keeps_value_reference:
  assumes "i < length (Nodes w)"
    and "(Nodes w ! i) ''parameters'' = Some (JObject p)"
    and "p ''workflowId'' = Some (JObject wv)"
    and "wv ''value'' = Some (JString v)"
  shows "\<exists>p'. (Nodes (updateSubWorkflowReferences tr w) ! i) ''parameters'' = Some (JObject p') \<and>
           p' ''workflowId'' = Some (JObject wv) \<and>
           ((v \<noteq> [] \<and> ((Nodes w ! i) ''type'' = Some (JString executeWorkflow) \<or>
                         (Nodes w ! i) ''type'' = Some (JString executeWorkflowTrigger))) \<longrightarrow>
              v \<in> set (ExtractSubWorkflowIDs (Nodes w)) \<and>
              v \<in> set (ExtractSubWorkflowIDs (Nodes (updateSubWorkflowReferences tr w))))"
proof -
  let ?nd = "Nodes w ! i"
  let ?w' = "updateSubWorkflowReferences tr w"
  let ?nd' = "Nodes ?w' ! i"
  have nth: "?nd' = update_node tr ?nd" using assms(1) by (rule Nodes_update_nth)
  obtain p' where p': "?nd' ''parameters'' = Some (JObject p')" "p' ''workflowId'' = Some (JObject wv)"
    using update_node_value_shape[where nd="?nd" and p=p and wv=wv and tr=tr] assms(2,3) nth by auto
  have ty: "?nd' ''type'' = ?nd ''type''" using nth update_node_type by simp
  have mem: "?nd \<in> set (Nodes w)" using assms(1) by simp
  have mem': "?nd' \<in> set (Nodes ?w')"
    using assms(1) by (simp add: updateSubWorkflowReferences_def)
  have "v \<in> set (ExtractSubWorkflowIDs (Nodes w)) \<and> v \<in> set (ExtractSubWorkflowIDs (Nodes ?w'))"
    if "v \<noteq> []" and t: "?nd ''type'' = Some (JString executeWorkflow) \<or>
                         ?nd ''type'' = Some (JString executeWorkflowTrigger)"
  proof
    have "v \<in> set (node_references ?nd)"
      using node_references_value[OF t assms(2,3,4) that(1)] .
    then show "v \<in> set (ExtractSubWorkflowIDs (Nodes w))"
      using mem unfolding set_ExtractSubWorkflowIDs by blast
    have "v \<in> set (node_references ?nd')"
      using node_references_value[of ?nd' p' wv v] t ty p' assms(4) that(1) by simp
    then show "v \<in> set (ExtractSubWorkflowIDs (Nodes ?w'))"
      using mem' unfolding set_ExtractSubWorkflowIDs by blast
  qed
  with p' show ?thesis by blast
qed

theorem updateSubWorkflowReferences_keeps_value_witness:
  "\<exists>p'. (Nodes (updateSubWorkflowReferences [''old1'' \<mapsto> ''new1'']
            \<lparr>ID = ''7'', Name = ''parent'', Active = True,
             Nodes = [[''type'' \<mapsto> JString executeWorkflow,
                       ''parameters'' \<mapsto> JObject [''workflowId'' \<mapsto>
                           JObject [''value'' \<mapsto> JString ''old1'']]]]\<rparr>) ! 0) ''parameters''
           = Some (JObject p') \<and>
         p' ''workflowId'' = Some (JObject [''value'' \<mapsto> JString ''old1'']) \<and>
         ''old1'' \<in> set (ExtractSubWorkflowIDs (Nodes (updateSubWorkflowReferences [''old1'' \<mapsto> ''new1'']
            \<lparr>ID = ''7'', Name = ''parent'', Active = True,
             Nodes = [[''type'' \<mapsto> JString executeWorkflow,
                       ''parameters'' \<mapsto> JObject [''workflowId'' \<mapsto>
                           JObject [''value'' \<mapsto> JString ''old1'']]]]\<rparr>)))"
  using updateSubWorkflowReferences_keeps_value_reference[of 0
          "\<lparr>ID = ''7'', Name = ''parent'', Active = True,
             Nodes = [[''type'' \<mapsto> JString executeWorkflow,
                       ''parameters'' \<mapsto> JObject [''workflowId'' \<mapsto>
                           JObject [''value'' \<mapsto> JString ''old1'']]]]\<rparr>"
          "[''workflowId'' \<mapsto> JObject [''value'' \<mapsto> JString ''old1'']]"
          "[''value'' \<mapsto> JString ''old1'']" "''old1''" "[''old1'' \<mapsto> ''new1'']"]
  by auto

section \<open>Properties of the dependency graph built by GetPushOrder\<close>

lemma add_edge_pair:
  "add_edge (dep, wid) (db, deg) =
     (fmupd dep (lookup_list db dep @ [wid]) db, fmupd wid (lookup_int deg wid + 1) deg)"
  by (simp add: add_edge_def)

lemma add_dependencies_fold:
  "add_dependencies W wid deps st = fold add_edge (edges_of W wid deps) st"
proof (induction deps arbitrary: st)
  case Nil
  then show ?case by (simp add: edges_of_def)
next
  case (Cons dep deps)
  obtain db deg where st: "st = (db, deg)" by (cases st)
  show ?case using Cons[of "add_edge (dep, wid) st"] Cons[of st]
    by (simp add: st edges_of_def add_edge_pair)
qed

lemma fold_concat_map:
  "fold f (concat (map g xs)) st = fold (\<lambda>x. fold f (g x)) xs st"
  by (induction xs arbitrary: st) auto

lemma build_graph_fold:
  "build_graph ro m = fold add_edge (edge_list ro m) (fmempty, init_inDegree (range_Workflows ro))"
proof -
  have "(\<lambda>wid st. case Dependencies m wid of
                      Some deps \<Rightarrow> add_dependencies (Workflows m) wid deps st
                    | None \<Rightarrow> st)
        = (\<lambda>wid. fold add_edge (case Dependencies m wid of
                           Some deps \<Rightarrow> edges_of (Workflows m) wid deps
                         | None \<Rightarrow> []))"
    by (auto simp: fun_eq_iff add_dependencies_fold split: option.splits)
  then show ?thesis
    unfolding build_graph_def edge_list_def fold_concat_map by simp
qed

lemma lookup_list_fmupd:
  "lookup_list (fmupd k v m) k' = (if k = k' then v else lookup_list m k')"
  by (simp add: lookup_list_def)

lemma fold_add_edge:
  "fold add_edge es (db, deg) = (db', deg') \<Longrightarrow>
     lookup_list db' b = lookup_list db b @ map snd (filter (\<lambda>e. fst e = b) es) \<and>
     lookup_int deg' a = lookup_int deg a + int (length (filter (\<lambda>e. snd e = a) es)) \<and>
     fmdom' deg' = fmdom' deg \<union> snd ` set es"
proof (induction es arbitrary: db deg)
  case Nil
  then show ?case by simp
next
  case (Cons e es)
  obtain dep wid where e: "e = (dep, wid)" by (cases e)
  let ?db = "fmupd dep (lookup_list db dep @ [wid]) db"
  let ?deg = "fmupd wid (lookup_int deg wid + 1) deg"
  from Cons.prems have "fold add_edge es (?db, ?deg) = (db', deg')"
    by (simp add: e add_edge_pair)
  from Cons.IH[OF this] show ?case
    by (auto simp: e lookup_list_fmupd lookup_int_fmupd)
qed

lemma init_inDegree_props:
  "lookup_int (init_inDegree ids) a = 0" "fmdom' (init_inDegree ids) = set ids"
proof -
  have g: "lookup_int (fold (\<lambda>wid d. fmupd wid 0 d) ids d0) a = (if a \<in> set ids then 0 else lookup_int d0 a)
       \<and> fmdom' (fold (\<lambda>wid d. fmupd wid 0 d) ids d0) = fmdom' d0 \<union> set ids" for d0
    by (induction ids arbitrary: d0) (auto simp: lookup_int_fmupd)
  show "lookup_int (init_inDegree ids) a = 0"
    using g[of fmempty] by (simp add: init_inDegree_def lookup_int_def)
  show "fmdom' (init_inDegree ids) = set ids"
    using g[of fmempty] by (simp add: init_inDegree_def)
qed

lemma build_graph_props:
  assumes "build_graph ro m = (db, deg)"
  shows "lookup_list db b = map snd (filter (\<lambda>e. fst e = b) (edge_list ro m))"
    and "lookup_int deg a = int (length (filter (\<lambda>e. snd e = a) (edge_list ro m)))"
    and "fmdom' deg = set (range_Workflows ro) \<union> snd ` set (edge_list ro m)"
proof -
  from assms have f: "fold add_edge (edge_list ro m) (fmempty, init_inDegree (range_Workflows ro)) = (db, deg)"
    by (simp add: build_graph_fold)
  show "lookup_list db b = map snd (filter (\<lambda>e. fst e = b) (edge_list ro m))"
    using fold_add_edge[OF f, of b a] by (simp add: lookup_list_def)
  show "lookup_int deg a = int (length (filter (\<lambda>e. snd e = a) (edge_list ro m)))"
    using fold_add_edge[OF f, of b a] by (simp add: init_inDegree_props)
  show "fmdom' deg = set (range_Workflows ro) \<union> snd ` set (edge_list ro m)"
    using fold_add_edge[OF f, of b a] by (simp add: init_inDegree_props)
qed

lemma set_edge_list:
  assumes "set (range_Dependencies ro) = dom (Dependencies m)"
  shows "set (edge_list ro m) = dep_edges m"
proof -
  have "set (edge_list ro m) =
          (\<Union>wid \<in> dom (Dependencies m). set (case Dependencies m wid of
                           Some deps \<Rightarrow> edges_of (Workflows m) wid deps | None \<Rightarrow> []))"
    unfolding edge_list_def using assms by simp
  also have "\<dots> = dep_edges m"
    unfolding dep_edges_def edges_of_def by (auto split: option.splits)
  finally show ?thesis .
qed

lemma reduce_dependents_inDegree:
  "reduce_dependents ds (deg, q) = (deg', q') \<Longrightarrow>
   lookup_int deg' x = lookup_int deg x - int (count_list ds x)"
proof (induction ds arbitrary: deg q)
  case Nil
  then show ?case by simp
next
  case (Cons d ds)
  let ?deg = "fmupd d (lookup_int deg d - 1) deg"
  let ?q = "if lookup_int ?deg d = 0 then q @ [d] else q"
  from Cons.prems have "reduce_dependents ds (?deg, ?q) = (deg', q')"
    by (simp add: Let_def)
  from Cons.IH[OF this] show ?case by (simp add: lookup_int_fmupd)
qed

lemma reduce_dependents_queue:
  assumes "\<forall>x \<in> set ds. int (count_list ds x) \<le> lookup_int deg x"
    and "reduce_dependents ds (deg, q) = (deg', q')"
  shows "\<exists>L. q' = q @ L \<and> distinct L \<and>
             set L = {x \<in> set ds. lookup_int deg x = int (count_list ds x)}"
  using assms
proof (induction ds arbitrary: deg q)
  case Nil
  then show ?case by simp
next
  case (Cons d ds)
  let ?deg = "fmupd d (lookup_int deg d - 1) deg"
  let ?q = "if lookup_int ?deg d = 0 then q @ [d] else q"
  have degd: "lookup_int ?deg d = lookup_int deg d - 1"
    and dego: "\<And>x. x \<noteq> d \<Longrightarrow> lookup_int ?deg x = lookup_int deg x"
    by (simp_all add: lookup_int_fmupd)
  have red: "reduce_dependents ds (?deg, ?q) = (deg', q')"
    using Cons.prems(2) by (simp add: Let_def)
  have dd: "int (count_list ds d) + 1 \<le> lookup_int deg d"
    using Cons.prems(1)[rule_format, of d] by simp
  have bound: "\<forall>x \<in> set ds. int (count_list ds x) \<le> lookup_int ?deg x"
  proof
    fix x assume x: "x \<in> set ds"
    show "int (count_list ds x) \<le> lookup_int ?deg x"
    proof (cases "x = d")
      case True
      then show ?thesis using dd degd by simp
    next
      case False
      have "x \<in> set (d # ds)" using x by simp
      from Cons.prems(1)[rule_format, OF this]
      have "int (count_list (d # ds) x) \<le> lookup_int deg x" .
      then show ?thesis using False dego by simp
    qed
  qed
  from Cons.IH[OF bound red] obtain L where
    L: "q' = ?q @ L" "distinct L" "set L = {x \<in> set ds. lookup_int ?deg x = int (count_list ds x)}"
    by blast
  have Lmem: "x \<in> set L \<longleftrightarrow> x \<in> set ds \<and> lookup_int deg x = int (count_list (d # ds) x)" for x
  proof (cases "x = d")
    case True
    show ?thesis unfolding L(3) using True degd by auto
  next
    case False
    show ?thesis unfolding L(3) using False dego by simp
  qed
  show ?case
  proof (cases "lookup_int deg d = 1")
    case True
    then have c0: "count_list ds d = 0" using dd by simp
    then have dn: "d \<notin> set ds" by (simp add: count_list_0_iff)
    have dL: "d \<notin> set L" using Lmem[of d] dn by simp
    have "set (d # L) = {x \<in> set (d # ds). lookup_int deg x = int (count_list (d # ds) x)}"
    proof (rule set_eqI)
      fix x
      show "x \<in> set (d # L) \<longleftrightarrow> x \<in> {x \<in> set (d # ds). lookup_int deg x = int (count_list (d # ds) x)}"
      proof (cases "x = d")
        case T: True
        then show ?thesis using True c0 by simp
      next
        case False
        then show ?thesis using Lmem[of x] by simp
      qed
    qed
    moreover have "q' = q @ (d # L)" using L(1) True degd by simp
    moreover have "distinct (d # L)" using L(2) dL by simp
    ultimately show ?thesis by blast
  next
    case False
    have "set L = {x \<in> set (d # ds). lookup_int deg x = int (count_list (d # ds) x)}"
    proof (rule set_eqI)
      fix x
      show "x \<in> set L \<longleftrightarrow> x \<in> {x \<in> set (d # ds). lookup_int deg x = int (count_list (d # ds) x)}"
      proof (cases "x = d")
        case True
        have "d \<in> set ds" if "lookup_int deg d = int (count_list ds d) + 1"
        proof (rule ccontr)
          assume "d \<notin> set ds"
          then have "count_list ds d = 0" by (simp add: count_list_0_iff)
          with that False show False by simp
        qed
        then show ?thesis using Lmem[of d] True by auto
      next
        case F: False
        then show ?thesis using Lmem[of x] by simp
      qed
    qed
    moreover have "q' = q @ L" using L(1) False degd by simp
    ultimately show ?thesis using L(2) by blast
  qed
qed

lemma count_list_dependents:
  "count_list (map snd (filter (\<lambda>e. fst e = w) E)) x = length (filter (\<lambda>e. fst e = w \<and> snd e = x) E)"
  by (induction E) auto

lemma set_dependents:
  "set (map snd (filter (\<lambda>e. fst e = w) E)) = {x. (w, x) \<in> set E}"
  by force

lemma remaining_snoc:
  assumes "w \<notin> set order"
  shows "remaining E order x =
           remaining E (order @ [w]) x + length (filter (\<lambda>e. fst e = w \<and> snd e = x) E)"
proof -
  have "length (filter (\<lambda>e. snd e = x \<and> fst e \<notin> set order) E) =
        length (filter (\<lambda>e. (snd e = x \<and> fst e \<notin> set order) \<and> fst e \<noteq> w) E) +
        length (filter (\<lambda>e. (snd e = x \<and> fst e \<notin> set order) \<and> \<not> fst e \<noteq> w) E)"
    by (induction E) auto
  moreover have "(\<lambda>e. (snd e = x \<and> fst e \<notin> set order) \<and> fst e \<noteq> w)
      = (\<lambda>e. snd e = x \<and> fst e \<notin> set (order @ [w]))" by auto
  moreover have "(\<lambda>e::string \<times> string. (snd e = x \<and> fst e \<notin> set order) \<and> \<not> fst e \<noteq> w)
      = (\<lambda>e. fst e = w \<and> snd e = x)" using assms by auto
  ultimately show ?thesis unfolding remaining_def by simp
qed

lemma remaining_zero_iff:
  "remaining E order a = 0 \<longleftrightarrow> (\<forall>b. (b, a) \<in> set E \<longrightarrow> b \<in> set order)"
  unfolding remaining_def by (auto simp: filter_empty_conv)

lemma precedes_snoc_old:
  "a \<in> set xs \<Longrightarrow> precedes b a (xs @ [w]) = precedes b a xs"
  unfolding precedes_def by (simp add: takeWhile_append1)

lemma precedes_snoc_new:
  "w \<notin> set xs \<Longrightarrow> precedes b w (xs @ [w]) = (b \<in> set xs)"
proof -
  assume "w \<notin> set xs"
  then have "\<forall>x \<in> set xs. x \<noteq> w" by auto
  then have "takeWhile (\<lambda>x. x \<noteq> w) (xs @ [w]) = xs" by (simp add: takeWhile_append2)
  then show ?thesis unfolding precedes_def by simp
qed

section \<open>Invariant of the queue loop of GetPushOrder\<close>

lemma kahn_inv_distinct: "kahn_inv E N order queue deg \<Longrightarrow> distinct (order @ queue)"
  unfolding kahn_inv_def by (rule conjunct1)

lemma kahn_inv_deg: "kahn_inv E N order queue deg \<Longrightarrow> lookup_int deg a = int (remaining E order a)"
  unfolding kahn_inv_def by (drule conjunct2, drule conjunct1, erule spec)

lemma kahn_inv_mem:
  "kahn_inv E N order queue deg \<Longrightarrow>
   a \<in> set (order @ queue) \<longleftrightarrow> a \<in> N \<and> (\<forall>b. (b, a) \<in> set E \<longrightarrow> b \<in> set order)"
  unfolding kahn_inv_def by (drule conjunct2, drule conjunct2, drule conjunct1, erule spec)

lemma kahn_inv_prec:
  "kahn_inv E N order queue deg \<Longrightarrow> (b, a) \<in> set E \<Longrightarrow> a \<in> set order \<Longrightarrow> precedes b a order"
  unfolding kahn_inv_def
  by (drule conjunct2, drule conjunct2, drule conjunct2, drule spec[of _ b], drule spec[of _ a], erule mp)
     (rule conjI)

lemma kahn_invI:
  assumes "distinct (order @ queue)"
    and "\<And>a. lookup_int deg a = int (remaining E order a)"
    and "\<And>a. a \<in> set (order @ queue) \<longleftrightarrow> a \<in> N \<and> (\<forall>b. (b, a) \<in> set E \<longrightarrow> b \<in> set order)"
    and "\<And>b a. (b, a) \<in> set E \<Longrightarrow> a \<in> set order \<Longrightarrow> precedes b a order"
  shows "kahn_inv E N order queue deg"
  unfolding kahn_inv_def
proof (intro conjI allI impI)
  show "distinct (order @ queue)" by (rule assms(1))
  show "lookup_int deg a = int (remaining E order a)" for a by (rule assms(2))
  show "a \<in> set (order @ queue) \<longleftrightarrow> a \<in> N \<and> (\<forall>b. (b, a) \<in> set E \<longrightarrow> b \<in> set order)" for a
    by (rule assms(3))
  show "precedes b a order" if "(b, a) \<in> set E \<and> a \<in> set order" for b a
    by (rule assms(4)[OF conjunct1[OF that] conjunct2[OF that]])
qed

lemma kahn_step:
  assumes db: "\<forall>b. lookup_list db b = map snd (filter (\<lambda>e. fst e = b) E)"
    and N: "snd ` set E \<subseteq> N"
    and inv: "kahn_inv E N order (w # queue) deg"
    and red: "reduce_dependents (lookup_list db w) (deg, queue) = (deg', q')"
  shows "kahn_inv E N (order @ [w]) q' deg'"
proof -
  let ?ds = "lookup_list db w"
  have ds: "?ds = map snd (filter (\<lambda>e. fst e = w) E)" using db by simp
  have dist: "distinct (order @ w # queue)"
    and deg: "\<And>a. lookup_int deg a = int (remaining E order a)"
    and mem: "\<And>a. a \<in> set (order @ w # queue) \<longleftrightarrow> a \<in> N \<and> (\<forall>b. (b, a) \<in> set E \<longrightarrow> b \<in> set order)"
    and prec: "\<And>b a. (b, a) \<in> set E \<Longrightarrow> a \<in> set order \<Longrightarrow> precedes b a order"
    using kahn_inv_distinct[OF inv] kahn_inv_deg[OF inv] kahn_inv_mem[OF inv] kahn_inv_prec[OF inv]
    by blast+
  have w: "w \<notin> set order" "w \<notin> set queue" using dist by auto
  have cnt: "count_list ?ds x = length (filter (\<lambda>e. fst e = w \<and> snd e = x) E)" for x
    unfolding ds by (rule count_list_dependents)
  have rem: "remaining E order x = remaining E (order @ [w]) x + count_list ?ds x" for x
    unfolding cnt by (rule remaining_snoc[OF w(1)])
  have deg': "lookup_int deg' x = int (remaining E (order @ [w]) x)" for x
    using reduce_dependents_inDegree[OF red, of x] deg[of x] rem[of x] by simp
  have bound: "\<forall>x \<in> set ?ds. int (count_list ?ds x) \<le> lookup_int deg x"
    using deg rem by simp
  from reduce_dependents_queue[OF bound red] obtain L where
    L: "q' = queue @ L" "distinct L"
      "set L = {x \<in> set ?ds. lookup_int deg x = int (count_list ?ds x)}"
    by blast
  have setds: "set ?ds = {x. (w, x) \<in> set E}" unfolding ds by (rule set_dependents)
  have Lmem: "x \<in> set L \<longleftrightarrow> (w, x) \<in> set E \<and> (\<forall>b. (b, x) \<in> set E \<longrightarrow> b \<in> set (order @ [w]))" for x
  proof -
    have "lookup_int deg x = int (count_list ?ds x) \<longleftrightarrow> remaining E (order @ [w]) x = 0"
      using deg[of x] rem[of x] by simp
    then show ?thesis unfolding L(3) setds remaining_zero_iff[symmetric] by simp
  qed
  have Lnew: "x \<notin> set (order @ w # queue)" if "x \<in> set L" for x
  proof -
    from that have "(w, x) \<in> set E" using Lmem by simp
    with w(1) have "\<not> (\<forall>b. (b, x) \<in> set E \<longrightarrow> b \<in> set order)" by blast
    then show ?thesis using mem[of x] by blast
  qed
  have i1: "distinct ((order @ [w]) @ q')"
  proof -
    have "set L \<inter> set (order @ w # queue) = {}" using Lnew by blast
    then show ?thesis using dist L(1,2) by auto
  qed
  have i3: "a \<in> set ((order @ [w]) @ q') \<longleftrightarrow>
              a \<in> N \<and> (\<forall>b. (b, a) \<in> set E \<longrightarrow> b \<in> set (order @ [w]))" for a
  proof
    assume "a \<in> set ((order @ [w]) @ q')"
    then consider "a \<in> set (order @ w # queue)" | "a \<in> set L" using L(1) by auto
    then show "a \<in> N \<and> (\<forall>b. (b, a) \<in> set E \<longrightarrow> b \<in> set (order @ [w]))"
    proof cases
      case 1
      then show ?thesis using mem[of a] by auto
    next
      case 2
      then have "(w, a) \<in> set E" using Lmem by simp
      then have "a \<in> N" using N by force
      then show ?thesis using 2 Lmem by simp
    qed
  next
    assume a: "a \<in> N \<and> (\<forall>b. (b, a) \<in> set E \<longrightarrow> b \<in> set (order @ [w]))"
    show "a \<in> set ((order @ [w]) @ q')"
    proof (cases "(w, a) \<in> set E")
      case True
      then have "a \<in> set L" using a Lmem by simp
      then show ?thesis using L(1) by simp
    next
      case False
      then have "\<forall>b. (b, a) \<in> set E \<longrightarrow> b \<in> set order" using a by auto
      then have "a \<in> set (order @ w # queue)" using a mem[of a] by blast
      then show ?thesis using L(1) by auto
    qed
  qed
  have i4: "precedes b a (order @ [w])" if "(b, a) \<in> set E" "a \<in> set (order @ [w])" for b a
  proof (cases "a \<in> set order")
    case True
    then show ?thesis using prec[OF that(1)] by (simp add: precedes_snoc_old)
  next
    case False
    then have aw: "a = w" using that(2) by simp
    have "w \<in> set (order @ w # queue)" by simp
    then have "b \<in> set order" using mem[of w] that(1) aw by blast
    then show ?thesis using aw w(1) by (simp add: precedes_snoc_new)
  qed
  show ?thesis by (rule kahn_invI[OF i1 deg' i3 i4])
qed

lemma kahn_loop_result:
  assumes "\<forall>b. lookup_list db b = map snd (filter (\<lambda>e. fst e = b) E)"
    and "snd ` set E \<subseteq> N"
    and "kahn_inv E N order queue deg"
  shows "kahn_result (set E) N (kahn_loop db order queue deg)"
  using assms
proof (induction db order queue deg rule: kahn_loop.induct)
  case (1 dependedBy order inDegree)
  note inv = "1.prems"(3)
  show ?case
    unfolding kahn_result_def kahn_loop.simps
  proof (intro conjI allI impI)
    show "distinct order" using kahn_inv_distinct[OF inv] by simp
    show "a \<in> set order \<longleftrightarrow> a \<in> N \<and> (\<forall>b. (b, a) \<in> set E \<longrightarrow> b \<in> set order)" for a
      using kahn_inv_mem[OF inv, of a] by (simp only: append_Nil2)
    show "precedes b a order" if "(b, a) \<in> set E \<and> a \<in> set order" for b a
      using kahn_inv_prec[OF inv, of b a] that by blast
  qed
next
  case (2 dependedBy order w queue inDegree)
  obtain deg' q' where red: "reduce_dependents (lookup_list dependedBy w) (inDegree, queue) = (deg', q')"
    by (cases "reduce_dependents (lookup_list dependedBy w) (inDegree, queue)")
  have "kahn_inv E N (order @ [w]) q' deg'"
    by (rule kahn_step[OF "2.prems"(1,2,3) red])
  from "2.IH"[OF red[symmetric] "2.prems"(1,2) this]
  show ?case using red by simp
qed

lemma kahn_inv_initial:
  assumes "build_graph ro m = (db, deg)" "distinct (range_inDegree ro)"
    "set (range_inDegree ro) = fmdom' deg"
  shows "kahn_inv (edge_list ro m) (set (range_Workflows ro) \<union> snd ` set (edge_list ro m)) []
           (filter (\<lambda>wid. lookup_int deg wid = 0) (range_inDegree ro)) deg"
proof -
  let ?E = "edge_list ro m"
  have d: "lookup_int deg a = int (remaining ?E [] a)" for a
    using build_graph_props(2)[OF assms(1), of a] by (simp add: remaining_def)
  have dom: "fmdom' deg = set (range_Workflows ro) \<union> snd ` set ?E"
    using build_graph_props(3)[OF assms(1)] .
  have z: "lookup_int deg a = 0 \<longleftrightarrow> (\<forall>b. (b, a) \<in> set ?E \<longrightarrow> b \<in> set [])" for a
    using d[of a] remaining_zero_iff[of ?E "[]" a] by simp
  show ?thesis
  proof (rule kahn_invI)
    show "distinct ([] @ filter (\<lambda>wid. lookup_int deg wid = 0) (range_inDegree ro))"
      using assms(2) by simp
    show "lookup_int deg a = int (remaining ?E [] a)" for a by (rule d)
    show "a \<in> set ([] @ filter (\<lambda>wid. lookup_int deg wid = 0) (range_inDegree ro)) \<longleftrightarrow>
            a \<in> set (range_Workflows ro) \<union> snd ` set ?E \<and> (\<forall>b. (b, a) \<in> set ?E \<longrightarrow> b \<in> set [])" for a
      using assms(3) dom z[of a] by simp
    show "precedes b a []" if "(b, a) \<in> set ?E" "a \<in> set []" for b a
      using that by simp
  qed
qed

lemma GetPushOrder_result:
  assumes "valid_ranges ro m"
  shows "kahn_result (dep_edges m) (dom (Workflows m) \<union> snd ` dep_edges m) (GetPushOrder ro m)"
proof -
  obtain db deg where bg: "build_graph ro m = (db, deg)" by (cases "build_graph ro m")
  have v: "distinct (range_inDegree ro)" "set (range_inDegree ro) = fmdom' deg"
    "set (range_Workflows ro) = dom (Workflows m)"
    "set (range_Dependencies ro) = dom (Dependencies m)"
    using assms bg by (simp_all add: valid_ranges_def)
  have E: "set (edge_list ro m) = dep_edges m" using set_edge_list[OF v(4)] .
  have "kahn_result (set (edge_list ro m)) (set (range_Workflows ro) \<union> snd ` set (edge_list ro m))
          (kahn_loop db [] (filter (\<lambda>wid. lookup_int deg wid = 0) (range_inDegree ro)) deg)"
  proof (rule kahn_loop_result)
    show "\<forall>b. lookup_list db b = map snd (filter (\<lambda>e. fst e = b) (edge_list ro m))"
      using build_graph_props(1)[OF bg] by simp
    show "snd ` set (edge_list ro m) \<subseteq> set (range_Workflows ro) \<union> snd ` set (edge_list ro m)"
      by simp
    show "kahn_inv (edge_list ro m) (set (range_Workflows ro) \<union> snd ` set (edge_list ro m)) []
           (filter (\<lambda>wid. lookup_int deg wid = 0) (range_inDegree ro)) deg"
      by (rule kahn_inv_initial[OF bg v(1,2)])
  qed
  then show ?thesis unfolding GetPushOrder_def bg E v(3) by simp
qed

section \<open>What the push order contains\<close>

lemma first_index_takeWhile:
  "b \<in> set (takeWhile P xs) \<Longrightarrow> first_index xs b < length (takeWhile P xs)"
  unfolding first_index_def by (induction xs) (auto split: if_splits)

lemma precedes_first_index:
  "precedes b a xs \<Longrightarrow> b \<in> set xs \<and> first_index xs b < first_index xs a"
  unfolding precedes_def
  using first_index_takeWhile[of b "\<lambda>x. x \<noteq> a" xs] set_takeWhileD[of b "\<lambda>x. x \<noteq> a" xs]
  by (auto simp: first_index_def)

lemma kahn_result_trancl:
  assumes "kahn_result R N res" "(b, a) \<in> R\<^sup>+" "a \<in> set res"
  shows "b \<in> set res \<and> first_index res b < first_index res a"
  using assms(2,3)
proof (induction rule: trancl_induct)
  case (base y)
  then have "precedes b y res" using assms(1) unfolding kahn_result_def by blast
  then show ?case by (rule precedes_first_index)
next
  case (step y z)
  then have "precedes y z res" using assms(1) unfolding kahn_result_def by blast
  then have "y \<in> set res \<and> first_index res y < first_index res z" by (rule precedes_first_index)
  with step.IH show ?case by auto
qed

lemma kahn_result_cycle:
  assumes "kahn_result R N res" "(a, a) \<in> R\<^sup>+"
  shows "a \<notin> set res"
  using kahn_result_trancl[OF assms] by auto

lemma kahn_result_least:
  assumes res: "kahn_result R N res"
    and closed: "\<And>a. a \<in> N \<Longrightarrow> (\<forall>b. (b, a) \<in> R \<longrightarrow> b \<in> S) \<Longrightarrow> a \<in> S"
  shows "set res \<subseteq> S"
proof -
  have "a \<in> set res \<longrightarrow> a \<in> S" for a
  proof (induction "first_index res a" arbitrary: a rule: less_induct)
    case less
    show ?case
    proof
      assume a: "a \<in> set res"
      then have aN: "a \<in> N" using res unfolding kahn_result_def by blast
      have "b \<in> S" if "(b, a) \<in> R" for b
      proof -
        have "precedes b a res" using res that a unfolding kahn_result_def by blast
        then have "b \<in> set res \<and> first_index res b < first_index res a"
          by (rule precedes_first_index)
        then show ?thesis using less by blast
      qed
      then show "a \<in> S" using closed[OF aN] by blast
    qed
  qed
  then show ?thesis by blast
qed

lemma kahn_result_set_unique:
  assumes "kahn_result R N res" "kahn_result R N res'"
  shows "set res = set res'"
proof
  show "set res \<subseteq> set res'"
    by (rule kahn_result_least[OF assms(1)]) (use assms(2) in \<open>unfold kahn_result_def, blast\<close>)
  show "set res' \<subseteq> set res"
    by (rule kahn_result_least[OF assms(2)]) (use assms(1) in \<open>unfold kahn_result_def, blast\<close>)
qed





section \<open>The push order: cycles, completeness, iteration order\<close>

lemma two_cycle_edges:
  "(''B'', ''A'') \<in> dep_edges manifest_two_cycle" "(''A'', ''B'') \<in> dep_edges manifest_two_cycle"
  by (simp_all add: dep_edges_def manifest_two_cycle_def)


text \<open>
  Claim C6. Whatever order the runtime iterates the maps in, a workflow that lies on a
  cycle of the dependency edges (restricted to targets that are workflow keys) does not
  occur in the sequence returned by \<^verbatim>\<open>GetPushOrder\<close>. For workflows A and B that depend
  on each other the returned sequence is empty.
\<close>

theorem GetPushOrder_omits_cycles:
  assumes "valid_ranges ro m" and "(a, a) \<in> (dep_edges m)\<^sup>+"
  shows "a \<notin> set (GetPushOrder ro m)"
  using kahn_result_cycle[OF GetPushOrder_result[OF assms(1)] assms(2)] .

theorem GetPushOrder_omits_cycles_witness:
  "valid_ranges \<lparr>range_Workflows = [''A'', ''B''], range_Dependencies = [''A'', ''B''],
                 range_inDegree = [''B'', ''A'']\<rparr> manifest_two_cycle \<and>
   (''A'', ''A'') \<in> (dep_edges manifest_two_cycle)\<^sup>+ \<and>
   (''B'', ''B'') \<in> (dep_edges manifest_two_cycle)\<^sup>+ \<and>
   ''A'' \<notin> set (GetPushOrder \<lparr>range_Workflows = [''A'', ''B''], range_Dependencies = [''A'', ''B''],
                 range_inDegree = [''B'', ''A'']\<rparr> manifest_two_cycle) \<and>
   ''B'' \<notin> set (GetPushOrder \<lparr>range_Workflows = [''A'', ''B''], range_Dependencies = [''A'', ''B''],
                 range_inDegree = [''B'', ''A'']\<rparr> manifest_two_cycle) \<and>
   GetPushOrder \<lparr>range_Workflows = [''A'', ''B''], range_Dependencies = [''A'', ''B''],
                 range_inDegree = [''B'', ''A'']\<rparr> manifest_two_cycle = []"
proof -
  let ?ro = "\<lparr>range_Workflows = [''A'', ''B''], range_Dependencies = [''A'', ''B''],
                 range_inDegree = [''B'', ''A'']\<rparr>"
  have v: "valid_ranges ?ro manifest_two_cycle"
    by (auto simp: GetPushOrder_def build_graph_def init_inDegree_def lookup_int_def
        lookup_list_def valid_ranges_def meta_of_def manifest_two_cycle_def)
  have a: "(''A'', ''A'') \<in> (dep_edges manifest_two_cycle)\<^sup>+"
    using two_cycle_edges by (meson trancl.intros)
  have b: "(''B'', ''B'') \<in> (dep_edges manifest_two_cycle)\<^sup>+"
    using two_cycle_edges by (meson trancl.intros)
  have e: "GetPushOrder ?ro manifest_two_cycle = []"
    by (simp add: GetPushOrder_def build_graph_def init_inDegree_def lookup_int_def
        lookup_list_def valid_ranges_def meta_of_def manifest_two_cycle_def)
  from v a b e GetPushOrder_omits_cycles[OF v a] GetPushOrder_omits_cycles[OF v b]
  show ?thesis by blast
qed




text \<open>
  Claim C8 (as amended). Two runs of \<^verbatim>\<open>GetPushOrder\<close> on the same manifest return
  sequences with the same elements, each once, and both respect the dependency edges;
  the position of simultaneously ready workflows follows the order in which the runtime
  iterates the maps, which is an input of each run.
\<close>

theorem GetPushOrder_same_elements:
  assumes "valid_ranges ro m" and "valid_ranges ro' m"
  shows "set (GetPushOrder ro m) = set (GetPushOrder ro' m) \<and>
         length (GetPushOrder ro m) = length (GetPushOrder ro' m) \<and>
         distinct (GetPushOrder ro m) \<and> distinct (GetPushOrder ro' m) \<and>
         (\<forall>a b. (b, a) \<in> dep_edges m \<and> a \<in> set (GetPushOrder ro m) \<longrightarrow>
                precedes b a (GetPushOrder ro m) \<and> precedes b a (GetPushOrder ro' m))"
proof -
  let ?N = "dom (Workflows m) \<union> snd ` dep_edges m"
  have r: "kahn_result (dep_edges m) ?N (GetPushOrder ro m)"
    by (rule GetPushOrder_result[OF assms(1)])
  have r': "kahn_result (dep_edges m) ?N (GetPushOrder ro' m)"
    by (rule GetPushOrder_result[OF assms(2)])
  have s: "set (GetPushOrder ro m) = set (GetPushOrder ro' m)"
    by (rule kahn_result_set_unique[OF r r'])
  have d: "distinct (GetPushOrder ro m)" "distinct (GetPushOrder ro' m)"
    using r r' unfolding kahn_result_def by blast+
  have l: "length (GetPushOrder ro m) = length (GetPushOrder ro' m)"
    using d s by (metis distinct_card)
  have p: "\<forall>a b. (b, a) \<in> dep_edges m \<and> a \<in> set (GetPushOrder ro m) \<longrightarrow>
                precedes b a (GetPushOrder ro m) \<and> precedes b a (GetPushOrder ro' m)"
    using r r' s unfolding kahn_result_def by blast
  show ?thesis using s l d p by blast
qed

theorem GetPushOrder_same_elements_witness:
  "valid_ranges \<lparr>range_Workflows = [''A'', ''B''], range_Dependencies = [],
                 range_inDegree = [''A'', ''B'']\<rparr> manifest_independent \<and>
   valid_ranges \<lparr>range_Workflows = [''B'', ''A''], range_Dependencies = [],
                 range_inDegree = [''B'', ''A'']\<rparr> manifest_independent \<and>
   set (GetPushOrder \<lparr>range_Workflows = [''A'', ''B''], range_Dependencies = [],
                 range_inDegree = [''A'', ''B'']\<rparr> manifest_independent)
     = set (GetPushOrder \<lparr>range_Workflows = [''B'', ''A''], range_Dependencies = [],
                 range_inDegree = [''B'', ''A'']\<rparr> manifest_independent)"
proof -
  let ?r1 = "\<lparr>range_Workflows = [''A'', ''B''], range_Dependencies = [],
                 range_inDegree = [''A'', ''B'']\<rparr>"
  let ?r2 = "\<lparr>range_Workflows = [''B'', ''A''], range_Dependencies = [],
                 range_inDegree = [''B'', ''A'']\<rparr>"
  have v1: "valid_ranges ?r1 manifest_independent"
    by (auto simp: GetPushOrder_def build_graph_def init_inDegree_def lookup_int_def
        lookup_list_def valid_ranges_def meta_of_def manifest_independent_def)
  have v2: "valid_ranges ?r2 manifest_independent"
    by (auto simp: GetPushOrder_def build_graph_def init_inDegree_def lookup_int_def
        lookup_list_def valid_ranges_def meta_of_def manifest_independent_def)
  from GetPushOrder_same_elements[OF v1 v2] v1 v2 show ?thesis by blast
qed

text \<open>
  The claim as stated fails: for two independent workflows the result lists them in the
  order in which the loop over \<^verbatim>\<open>inDegree\<close> visits them, and that order is not fixed
  by the manifest.
\<close>

theorem GetPushOrder_deterministic_counterexample:
  "valid_ranges \<lparr>range_Workflows = [''A'', ''B''], range_Dependencies = [],
                 range_inDegree = [''A'', ''B'']\<rparr> manifest_independent \<and>
   valid_ranges \<lparr>range_Workflows = [''A'', ''B''], range_Dependencies = [],
                 range_inDegree = [''B'', ''A'']\<rparr> manifest_independent \<and>
   GetPushOrder \<lparr>range_Workflows = [''A'', ''B''], range_Dependencies = [],
                 range_inDegree = [''A'', ''B'']\<rparr> manifest_independent
     \<noteq> GetPushOrder \<lparr>range_Workflows = [''A'', ''B''], range_Dependencies = [],
                 range_inDegree = [''B'', ''A'']\<rparr> manifest_independent"
proof -
  let ?r1 = "\<lparr>range_Workflows = [''A'', ''B''], range_Dependencies = [],
                 range_inDegree = [''A'', ''B'']\<rparr>"
  let ?r2 = "\<lparr>range_Workflows = [''A'', ''B''], range_Dependencies = [],
                 range_inDegree = [''B'', ''A'']\<rparr>"
  have v1: "valid_ranges ?r1 manifest_independent"
    by (auto simp: GetPushOrder_def build_graph_def init_inDegree_def lookup_int_def
        lookup_list_def valid_ranges_def meta_of_def manifest_independent_def)
  have v2: "valid_ranges ?r2 manifest_independent"
    by (auto simp: GetPushOrder_def build_graph_def init_inDegree_def lookup_int_def
        lookup_list_def valid_ranges_def meta_of_def manifest_independent_def)
  have e1: "GetPushOrder ?r1 manifest_independent = [''A'', ''B'']"
    by (simp add: GetPushOrder_def build_graph_def init_inDegree_def lookup_int_def
        lookup_list_def valid_ranges_def meta_of_def manifest_independent_def)
  have e2: "GetPushOrder ?r2 manifest_independent = [''B'', ''A'']"
    by (simp add: GetPushOrder_def build_graph_def init_inDegree_def lookup_int_def
        lookup_list_def valid_ranges_def meta_of_def manifest_independent_def)
  show ?thesis using v1 v2 unfolding e1 e2 by simp
qed

section \<open>Properties of the recursive pull\<close>

lemma record_workflow_simps:
  "pulled (record_workflow wid w r p) = (pulled p)(wid \<mapsto> w)"
  "printed (record_workflow wid w r p) = printed p"
  "requests (record_workflow wid w r p) = requests p @ [(wid, None)]"
  "remote_state (record_workflow wid w r p) = r"
  "RootWorkflow (manifest (record_workflow wid w r p)) = RootWorkflow (manifest p)"
  "Workflows (manifest (record_workflow wid w r p)) = (Workflows (manifest p))(wid \<mapsto> meta_for w)"
  "Dependencies (manifest (record_workflow wid w r p)) =
     (if ExtractSubWorkflowIDs (Nodes w) \<noteq> []
      then (Dependencies (manifest p))(wid \<mapsto> ExtractSubWorkflowIDs (Nodes w))
      else Dependencies (manifest p))"
  by (simp_all add: record_workflow_def Let_def)

lemma record_failure_simps:
  "pulled (record_failure wid err r p) = pulled p"
  "printed (record_failure wid err r p) = printed p"
  "requests (record_failure wid err r p) = requests p @ [(wid, Some err)]"
  "remote_state (record_failure wid err r p) = r"
  "manifest (record_failure wid err r p) = manifest p"
  by (simp_all add: record_failure_def)

lemma body_references_record:
  "body_references (record_workflow wid w r p) x =
     (if x = wid then ExtractSubWorkflowIDs (Nodes w) else body_references p x)"
  by (simp add: body_references_def record_workflow_simps)

lemma body_references_failure:
  "body_references (record_failure wid err r p) x = body_references p x"
  by (simp add: body_references_def record_failure_simps)

lemma body_references_absent: "wid \<notin> dom (pulled p) \<Longrightarrow> body_references p wid = []"
  by (auto simp: body_references_def domIff)

lemma pull_invD:
  assumes "pull_inv p"
  shows "Workflows (manifest p) wid = map_option meta_for (pulled p wid)"
    and "Dependencies (manifest p) wid =
           (if body_references p wid \<noteq> [] then Some (body_references p wid) else None)"
    and "wid \<in> dom (pulled p) \<Longrightarrow> count_list (requests p) (wid, None) = 1"
    and "wid \<notin> dom (pulled p) \<Longrightarrow> (wid, None) \<notin> set (requests p)"
    and "requests p = xs @ (wid, None) # ys \<Longrightarrow> wid \<notin> set (map fst ys)"
proof -
  from assms have c: "(\<forall>wid. Workflows (manifest p) wid = map_option meta_for (pulled p wid)) \<and>
     (\<forall>wid. Dependencies (manifest p) wid =
              (if body_references p wid \<noteq> [] then Some (body_references p wid) else None)) \<and>
     (\<forall>wid. wid \<in> dom (pulled p) \<longrightarrow> count_list (requests p) (wid, None) = 1) \<and>
     (\<forall>wid. wid \<notin> dom (pulled p) \<longrightarrow> (wid, None) \<notin> set (requests p)) \<and>
     (\<forall>xs ys wid. requests p = xs @ (wid, None) # ys \<longrightarrow> wid \<notin> set (map fst ys))"
    unfolding pull_inv_def .
  show "Workflows (manifest p) wid = map_option meta_for (pulled p wid)"
    using c by (elim conjE) (erule spec)
  show "Dependencies (manifest p) wid =
           (if body_references p wid \<noteq> [] then Some (body_references p wid) else None)"
    using c by (elim conjE) (erule spec)
  show "wid \<in> dom (pulled p) \<Longrightarrow> count_list (requests p) (wid, None) = 1"
    using c by (elim conjE) (drule spec[of "\<lambda>wid. wid \<in> dom (pulled p) \<longrightarrow> count_list (requests p) (wid, None) = 1" wid], erule mp)
  show "wid \<notin> dom (pulled p) \<Longrightarrow> (wid, None) \<notin> set (requests p)"
    using c by (elim conjE) (drule spec[of "\<lambda>wid. wid \<notin> dom (pulled p) \<longrightarrow> (wid, None) \<notin> set (requests p)" wid], erule mp)
  show "requests p = xs @ (wid, None) # ys \<Longrightarrow> wid \<notin> set (map fst ys)"
    using c by (elim conjE) blast
qed

lemma pull_invI:
  assumes "\<And>wid. Workflows (manifest p) wid = map_option meta_for (pulled p wid)"
    and "\<And>wid. Dependencies (manifest p) wid =
           (if body_references p wid \<noteq> [] then Some (body_references p wid) else None)"
    and "\<And>wid. wid \<in> dom (pulled p) \<Longrightarrow> count_list (requests p) (wid, None) = 1"
    and "\<And>wid. wid \<notin> dom (pulled p) \<Longrightarrow> (wid, None) \<notin> set (requests p)"
    and "\<And>xs ys wid. requests p = xs @ (wid, None) # ys \<Longrightarrow> wid \<notin> set (map fst ys)"
  shows "pull_inv p"
  unfolding pull_inv_def using assms by blast

lemma snoc_split:
  assumes "zs @ [b] = xs @ a # ys"
  shows "(ys = [] \<and> a = b \<and> zs = xs) \<or> (\<exists>ys'. ys = ys' @ [b] \<and> zs = xs @ a # ys')"
proof (cases ys rule: rev_cases)
  case Nil
  then show ?thesis using assms by auto
next
  case (snoc ys' y)
  then have "zs @ [b] = (xs @ a # ys') @ [y]" using assms by simp
  then have "zs = xs @ a # ys'" "b = y" by (simp_all only: append1_eq_conv)
  then show ?thesis using snoc by simp
qed

lemma after_success_snoc:
  assumes inv: "pull_inv p" and new: "wid \<notin> dom (pulled p)"
    and eq: "requests p @ [(wid, res)] = xs @ (x, None) # ys"
  shows "x \<notin> set (map fst ys)"
proof -
  from snoc_split[OF eq] show ?thesis
  proof
    assume "ys = [] \<and> (x, None) = (wid, res) \<and> requests p = xs"
    then show ?thesis by simp
  next
    assume "\<exists>ys'. ys = ys' @ [(wid, res)] \<and> requests p = xs @ (x, None) # ys'"
    then obtain ys' where ys: "ys = ys' @ [(wid, res)]" and r: "requests p = xs @ (x, None) # ys'"
      by blast
    have "x \<notin> set (map fst ys')" by (rule pull_invD(5)[OF inv r])
    moreover have "(x, None) \<in> set (requests p)" using r by simp
    then have "x \<in> dom (pulled p)" using pull_invD(4)[OF inv, of x] by blast
    then have "x \<noteq> wid" using new by blast
    ultimately show ?thesis using ys by simp
  qed
qed

lemma pull_inv_record:
  assumes inv: "pull_inv p" and new: "wid \<notin> dom (pulled p)"
  shows "pull_inv (record_workflow wid w r p)"
proof (rule pull_invI)
  fix x
  show "Workflows (manifest (record_workflow wid w r p)) x
          = map_option meta_for (pulled (record_workflow wid w r p) x)"
    using pull_invD(1)[OF inv, of x] by (simp add: record_workflow_simps)
  show "Dependencies (manifest (record_workflow wid w r p)) x =
           (if body_references (record_workflow wid w r p) x \<noteq> []
            then Some (body_references (record_workflow wid w r p) x) else None)"
    using pull_invD(2)[OF inv, of x] body_references_absent[OF new]
    by (auto simp: record_workflow_simps body_references_record)
  show "count_list (requests (record_workflow wid w r p)) (x, None) = 1"
    if "x \<in> dom (pulled (record_workflow wid w r p))"
  proof (cases "x = wid")
    case True
    have "count_list (requests p) (wid, None) = 0"
      using pull_invD(4)[OF inv new] by (simp add: count_list_0_iff)
    then show ?thesis using True by (simp add: record_workflow_simps)
  next
    case False
    then have "x \<in> dom (pulled p)" using that by (simp add: record_workflow_simps)
    then show ?thesis using pull_invD(3)[OF inv, of x] False by (simp add: record_workflow_simps)
  qed
  show "(x, None) \<notin> set (requests (record_workflow wid w r p))"
    if "x \<notin> dom (pulled (record_workflow wid w r p))"
    using that pull_invD(4)[OF inv, of x] by (auto simp: record_workflow_simps)
next
  fix xs ys x
  assume "requests (record_workflow wid w r p) = xs @ (x, None) # ys"
  then have "requests p @ [(wid, None)] = xs @ (x, None) # ys" by (simp add: record_workflow_simps)
  then show "x \<notin> set (map fst ys)" by (rule after_success_snoc[OF inv new])
qed

lemma pull_inv_failure:
  assumes inv: "pull_inv p" and new: "wid \<notin> dom (pulled p)"
  shows "pull_inv (record_failure wid err r p)"
proof (rule pull_invI)
  fix x
  show "Workflows (manifest (record_failure wid err r p)) x
          = map_option meta_for (pulled (record_failure wid err r p) x)"
    using pull_invD(1)[OF inv, of x] by (simp add: record_failure_simps)
  show "Dependencies (manifest (record_failure wid err r p)) x =
           (if body_references (record_failure wid err r p) x \<noteq> []
            then Some (body_references (record_failure wid err r p) x) else None)"
    using pull_invD(2)[OF inv, of x] by (simp add: record_failure_simps body_references_failure)
  show "count_list (requests (record_failure wid err r p)) (x, None) = 1"
    if "x \<in> dom (pulled (record_failure wid err r p))"
    using that pull_invD(3)[OF inv, of x] by (simp add: record_failure_simps)
  show "(x, None) \<notin> set (requests (record_failure wid err r p))"
    if "x \<notin> dom (pulled (record_failure wid err r p))"
    using that pull_invD(4)[OF inv, of x] by (simp add: record_failure_simps)
next
  fix xs ys x
  assume "requests (record_failure wid err r p) = xs @ (x, None) # ys"
  then have "requests p @ [(wid, Some err)] = xs @ (x, None) # ys" by (simp add: record_failure_simps)
  then show "x \<notin> set (map fst ys)" by (rule after_success_snoc[OF inv new])
qed

lemma body_references_printed: "body_references (p\<lparr>printed := l\<rparr>) = body_references p"
  by (simp add: body_references_def fun_eq_iff)

lemma pull_inv_printed: "pull_inv p \<Longrightarrow> pull_inv (p\<lparr>printed := l\<rparr>)"
  unfolding pull_inv_def by (simp add: body_references_printed)

lemma extends_refl: "extends p p"
  unfolding extends_def by simp

lemma extends_dom: "extends p q \<Longrightarrow> dom (pulled p) \<subseteq> dom (pulled q)"
  unfolding extends_def by (auto simp: domIff)

lemma extends_trans:
  assumes "extends p q" "extends q r"
  shows "extends p r"
proof -
  have "pulled r wid = pulled p wid" if "wid \<in> dom (pulled p)" for wid
  proof -
    have "wid \<in> dom (pulled q)" using extends_dom[OF assms(1)] that by blast
    then have "pulled r wid = pulled q wid" using assms(2) unfolding extends_def by blast
    moreover have "pulled q wid = pulled p wid" using assms(1) that unfolding extends_def by blast
    ultimately show ?thesis by simp
  qed
  moreover have "set (printed p) \<subseteq> set (printed r)"
    "RootWorkflow (manifest r) = RootWorkflow (manifest p)"
    using assms unfolding extends_def by auto
  moreover have "\<exists>zs. requests r = requests p @ zs"
  proof -
    obtain zs1 where "requests q = requests p @ zs1" using assms(1) unfolding extends_def by blast
    moreover obtain zs2 where "requests r = requests q @ zs2" using assms(2) unfolding extends_def by blast
    ultimately have "requests r = requests p @ (zs1 @ zs2)" by simp
    then show ?thesis by blast
  qed
  ultimately show ?thesis unfolding extends_def by blast
qed

lemma extends_requests: "extends p q \<Longrightarrow> set (requests p) \<subseteq> set (requests q)"
  unfolding extends_def by auto

lemma extends_body: "extends p q \<Longrightarrow> a \<in> dom (pulled p) \<Longrightarrow> body_references q a = body_references p a"
  unfolding extends_def body_references_def by simp

lemma extends_record: "wid \<notin> dom (pulled p) \<Longrightarrow> extends p (record_workflow wid w r p)"
  unfolding extends_def by (auto simp: record_workflow_simps)

lemma extends_failure: "extends p (record_failure wid err r p)"
  unfolding extends_def by (auto simp: record_failure_simps)

lemma extends_printed: "extends p (p\<lparr>printed := printed p @ l\<rparr>)"
  unfolding extends_def by auto

lemma warned_mono: "extends p q \<Longrightarrow> warned p x err \<Longrightarrow> warned q x err"
  using extends_requests[of p q] unfolding extends_def warned_def by blast

lemma settled_mono:
  assumes e: "extends p q" and s: "settled p xs"
  shows "settled q xs"
proof -
  have "x \<in> dom (pulled q) \<or> (\<exists>err. warned q x err)" if "x \<in> set xs" for x
  proof -
    from s that have "x \<in> dom (pulled p) \<or> (\<exists>err. warned p x err)" unfolding settled_def by blast
    then show ?thesis
    proof
      assume "x \<in> dom (pulled p)"
      then show ?thesis using extends_dom[OF e] by blast
    next
      assume "\<exists>err. warned p x err"
      then show ?thesis using warned_mono[OF e] by blast
    qed
  qed
  then show ?thesis unfolding settled_def by blast
qed

lemma referred_mono:
  assumes e: "extends p q" and s: "referred p xs"
  shows "referred q xs"
proof -
  have "\<exists>a. a \<in> dom (pulled q) \<and> x \<in> set (body_references q a)" if "x \<in> set xs" for x
  proof -
    from s that obtain a where a: "a \<in> dom (pulled p)" "x \<in> set (body_references p a)"
      unfolding referred_def by blast
    then have "a \<in> dom (pulled q)" "x \<in> set (body_references q a)"
      using extends_dom[OF e] extends_body[OF e a(1)] by auto
    then show ?thesis by blast
  qed
  then show ?thesis unfolding referred_def by blast
qed

lemma closed_new_refl: "closed_new p p"
  unfolding closed_new_def by simp

lemma closed_new_trans:
  assumes "closed_new p q" "closed_new q r" "extends q r"
  shows "closed_new p r"
  unfolding closed_new_def
proof
  fix a assume a: "a \<in> dom (pulled r) - dom (pulled p)"
  show "settled r (body_references r a)"
  proof (cases "a \<in> dom (pulled q)")
    case True
    then have "settled q (body_references q a)" using assms(1) a unfolding closed_new_def by blast
    then have "settled r (body_references q a)" by (rule settled_mono[OF assms(3)])
    then show ?thesis using extends_body[OF assms(3) True] by simp
  next
    case False
    then show ?thesis using assms(2) a unfolding closed_new_def by blast
  qed
qed

lemma closed_new_same_pulled: "pulled q = pulled p \<Longrightarrow> closed_new p q"
  unfolding closed_new_def by simp

lemma all_referred_record:
  assumes "all_referred p rootID" "wid \<notin> dom (pulled p)"
  shows "all_referred (record_workflow wid w r p) rootID"
  unfolding all_referred_def
proof (intro allI impI)
  fix x err assume "(x, Some err) \<in> set (requests (record_workflow wid w r p))"
  then have "(x, Some err) \<in> set (requests p)" by (simp add: record_workflow_simps)
  then have "x = rootID \<or> referred p [x]" using assms(1) unfolding all_referred_def by blast
  then show "x = rootID \<or> referred (record_workflow wid w r p) [x]"
    using referred_mono[OF extends_record[OF assms(2), of w r], of "[x]"] by blast
qed

lemma all_referred_failure:
  assumes "all_referred p rootID" "wid = rootID \<or> referred p [wid]"
  shows "all_referred (record_failure wid err r p) rootID"
  unfolding all_referred_def
proof (intro allI impI)
  fix x e assume "(x, Some e) \<in> set (requests (record_failure wid err r p))"
  then have "(x, Some e) \<in> set (requests p) \<or> x = wid" by (auto simp: record_failure_simps)
  then have "x = rootID \<or> referred p [x]"
    using assms unfolding all_referred_def by blast
  then show "x = rootID \<or> referred (record_failure wid err r p) [x]"
    using referred_mono[OF extends_failure[of p wid err r], of "[x]"] by blast
qed

lemma referred_printed: "referred (p\<lparr>printed := l\<rparr>) xs = referred p xs"
  unfolding referred_def by (simp add: body_references_printed)

lemma all_referred_printed: "all_referred p rootID \<Longrightarrow> all_referred (p\<lparr>printed := l\<rparr>) rootID"
  unfolding all_referred_def by (simp add: referred_printed)

lemma all_warned_record: "all_warned p \<Longrightarrow> all_warned (record_workflow wid w r p)"
  unfolding all_warned_def warned_def by (auto simp: record_workflow_simps)

lemma all_warned_after_warning:
  assumes "all_warned p"
  shows "all_warned ((record_failure wid err r p)
           \<lparr>printed := printed (record_failure wid err r p) @ [warning_line wid (fetch_error wid err)]\<rparr>)"
  using assms unfolding all_warned_def warned_def by (auto simp: record_failure_simps)

lemma requested_record: "requested (record_workflow wid w r p) = requested p @ [wid]"
  by (simp add: requested_def record_workflow_simps)

lemma requested_failure: "requested (record_failure wid err r p) = requested p @ [wid]"
  by (simp add: requested_def record_failure_simps)

lemma requested_printed: "requested (p\<lparr>printed := l\<rparr>) = requested p"
  by (simp add: requested_def)

lemma pull_preD:
  assumes "pull_pre rootID p"
  shows "pull_inv p" "all_referred p rootID" "all_warned p"
  using assms unfolding pull_pre_def by blast+

lemma pull_preI: "pull_inv p \<Longrightarrow> all_referred p rootID \<Longrightarrow> all_warned p \<Longrightarrow> pull_pre rootID p"
  unfolding pull_pre_def by (intro conjI)

lemma rec_postD:
  assumes "rec_post S rootID wid p r p'"
  shows "pull_inv p'" "all_referred p' rootID" "extends p p'" "closed_new p p'"
    "dom (pulled p') \<subseteq> dom (pulled p) \<union> S" "set (requested p') \<subseteq> set (requested p) \<union> S"
    "r = None \<Longrightarrow> wid \<in> dom (pulled p') \<and> all_warned p'"
    "r = Some e \<Longrightarrow> \<exists>err r'. e = fetch_error wid err \<and> p' = record_failure wid err r' p"
proof -
  from assms have c: "pull_inv p' \<and> all_referred p' rootID \<and> extends p p' \<and> closed_new p p' \<and>
     dom (pulled p') \<subseteq> dom (pulled p) \<union> S \<and>
     set (requested p') \<subseteq> set (requested p) \<union> S \<and>
     (case r of
        None \<Rightarrow> wid \<in> dom (pulled p') \<and> all_warned p'
      | Some e \<Rightarrow> (\<exists>err r'. e = fetch_error wid err \<and> p' = record_failure wid err r' p))"
    unfolding rec_post_def .
  show "pull_inv p'" "all_referred p' rootID" "extends p p'" "closed_new p p'"
    "dom (pulled p') \<subseteq> dom (pulled p) \<union> S" "set (requested p') \<subseteq> set (requested p) \<union> S"
    using c by blast+
  show "r = None \<Longrightarrow> wid \<in> dom (pulled p') \<and> all_warned p'"
    using c by (elim conjE) simp
  show "r = Some e \<Longrightarrow> \<exists>err r'. e = fetch_error wid err \<and> p' = record_failure wid err r' p"
    using c by (elim conjE) simp
qed

lemma subs_postD:
  assumes "subs_post S rootID xs p p'"
  shows "pull_pre rootID p'" "extends p p'" "closed_new p p'"
    "dom (pulled p') \<subseteq> dom (pulled p) \<union> S" "set (requested p') \<subseteq> set (requested p) \<union> S"
    "settled p' xs"
  using assms unfolding subs_post_def by blast+

lemma subs_postI:
  assumes "pull_pre rootID p'" "extends p p'" "closed_new p p'"
    "dom (pulled p') \<subseteq> dom (pulled p) \<union> S" "set (requested p') \<subseteq> set (requested p) \<union> S"
    "settled p' xs"
  shows "subs_post S rootID xs p p'"
  unfolding subs_post_def using assms by (intro conjI)

lemma card_diff_mono:
  assumes "finite S" "A \<subseteq> B"
  shows "card (S - B) \<le> card (S - A)"
  using assms by (intro card_mono) auto

lemma pullSubs_total_from_rec:
  assumes fin: "finite S"
    and rec: "\<And>wid p. pull_pre rootID p \<Longrightarrow> wid \<in> S \<Longrightarrow> wid = rootID \<or> referred p [wid] \<Longrightarrow>
                card (S - dom (pulled p)) < n \<Longrightarrow>
                \<exists>r p'. pullRecursive c n wid p = Some (r, p') \<and> rec_post S rootID wid p r p'"
  shows "pull_pre rootID p \<Longrightarrow> set xs \<subseteq> S \<Longrightarrow> referred p xs \<Longrightarrow> card (S - dom (pulled p)) < n \<Longrightarrow>
           \<exists>p'. pullSubs c n xs p = Some p' \<and> subs_post S rootID xs p p'"
proof (induction xs arbitrary: p)
  case Nil
  have "subs_post S rootID [] p p"
    by (rule subs_postI[OF Nil.prems(1) extends_refl closed_new_refl]) (simp_all add: settled_def)
  then show ?case by simp
next
  case (Cons x xs)
  have xS: "x \<in> S" and xsS: "set xs \<subseteq> S" using Cons.prems(2) by simp_all
  have rx: "referred p [x]" and rxs: "referred p xs"
    using Cons.prems(3) unfolding referred_def by simp_all
  from rec[OF Cons.prems(1) xS disjI2[OF rx] Cons.prems(4)] obtain r p1 where
    r1: "pullRecursive c n x p = Some (r, p1)" and post1: "rec_post S rootID x p r p1" by blast
  note d1 = rec_postD[OF post1]
  define p2 where "p2 = (case r of None \<Rightarrow> p1 | Some e \<Rightarrow> p1\<lparr>printed := printed p1 @ [warning_line x e]\<rparr>)"
  have r2: "pullSubs c n (x # xs) p = pullSubs c n xs p2"
    using r1 unfolding p2_def by (cases r) auto
  have pulled2: "pulled p2 = pulled p1" unfolding p2_def by (cases r) auto
  have req2: "requested p2 = requested p1" unfolding p2_def by (cases r) (auto simp: requested_def)
  have ext12: "extends p1 p2" unfolding p2_def using extends_printed[of p1] extends_refl[of p1]
    by (cases r) auto
  have ext2: "extends p p2" by (rule extends_trans[OF d1(3) ext12])
  have pre2: "pull_pre rootID p2 \<and> (x \<in> dom (pulled p2) \<or> (\<exists>err. warned p2 x err))"
  proof (cases r)
    case None
    then have "p2 = p1" unfolding p2_def by simp
    then show ?thesis using d1(1,2) d1(7)[OF None] by (simp add: pull_preI)
  next
    case (Some e)
    from d1(8)[OF Some] obtain err r' where e: "e = fetch_error x err"
      and p1: "p1 = record_failure x err r' p" by blast
    have p2: "p2 = (record_failure x err r' p)
           \<lparr>printed := printed (record_failure x err r' p) @ [warning_line x (fetch_error x err)]\<rparr>"
      unfolding p2_def Some e p1 by simp
    have "pull_inv p2" unfolding p2_def Some using d1(1) by (simp add: pull_inv_printed)
    moreover have "all_referred p2 rootID"
      unfolding p2_def Some using d1(2) by (simp add: all_referred_printed)
    moreover have "all_warned p2"
      unfolding p2 by (rule all_warned_after_warning[OF pull_preD(3)[OF Cons.prems(1)]])
    moreover have "warned p2 x err"
      unfolding p2 warned_def by (simp add: record_failure_simps)
    ultimately show ?thesis by (auto simp: pull_preI)
  qed
  have cl2: "closed_new p p2"
    by (rule closed_new_trans[OF d1(4) closed_new_same_pulled[OF pulled2] ext12])
  have "card (S - dom (pulled p2)) \<le> card (S - dom (pulled p))"
    by (rule card_diff_mono[OF fin extends_dom[OF ext2]])
  then have c2: "card (S - dom (pulled p2)) < n" using Cons.prems(4) by simp
  from Cons.IH[OF conjunct1[OF pre2] xsS referred_mono[OF ext2 rxs] c2] obtain p' where
    r3: "pullSubs c n xs p2 = Some p'" and post2: "subs_post S rootID xs p2 p'" by blast
  note d2 = subs_postD[OF post2]
  have "settled p' [x]"
    using settled_mono[OF d2(2), of "[x]"] conjunct2[OF pre2] unfolding settled_def by simp
  then have st: "settled p' (x # xs)" using d2(6) unfolding settled_def by simp
  have dom: "dom (pulled p') \<subseteq> dom (pulled p) \<union> S"
    using d2(4) d1(5) unfolding pulled2 by blast
  have req: "set (requested p') \<subseteq> set (requested p) \<union> S"
    using d2(5) d1(6) unfolding req2 by blast
  have "subs_post S rootID (x # xs) p p'"
    by (rule subs_postI[OF d2(1) extends_trans[OF ext2 d2(2)]
          closed_new_trans[OF cl2 d2(3) d2(2)] dom req st])
  then show ?case using r2 r3 by simp
qed

lemma rec_postI:
  assumes "pull_inv p'" "all_referred p' rootID" "extends p p'" "closed_new p p'"
    "dom (pulled p') \<subseteq> dom (pulled p) \<union> S" "set (requested p') \<subseteq> set (requested p) \<union> S"
    "case r of None \<Rightarrow> wid \<in> dom (pulled p') \<and> all_warned p'
     | Some e \<Rightarrow> (\<exists>err r'. e = fetch_error wid err \<and> p' = record_failure wid err r' p)"
  shows "rec_post S rootID wid p r p'"
  unfolding rec_post_def using assms by (intro conjI)

lemma pullRecursive_total:
  assumes fin: "finite S" and closed: "closed_under c S"
  shows "pull_pre rootID p \<Longrightarrow> wid \<in> S \<Longrightarrow> wid = rootID \<or> referred p [wid] \<Longrightarrow>
           card (S - dom (pulled p)) < n \<Longrightarrow>
           \<exists>r p'. pullRecursive c n wid p = Some (r, p') \<and> rec_post S rootID wid p r p'"
proof (induction n arbitrary: wid p)
  case 0
  then show ?case by simp
next
  case (Suc n)
  note pre = pull_preD[OF Suc.prems(1)]
  show ?case
  proof (cases "wid \<in> dom (pulled p)")
    case True
    have "rec_post S rootID wid p None p"
      by (rule rec_postI[OF pre(1,2) extends_refl closed_new_refl]) (use True pre(3) in simp_all)
    then show ?thesis using True by simp
  next
    case False
    obtain res r' where ans: "c (remote_state p) wid = (res, r')" by (cases "c (remote_state p) wid")
    show ?thesis
    proof (cases res)
      case (Inl err)
      let ?p' = "record_failure wid err r' p"
      have run: "pullRecursive c (Suc n) wid p = Some (Some (fetch_error wid err), ?p')"
        using False ans Inl by simp
      have "rec_post S rootID wid p (Some (fetch_error wid err)) ?p'"
      proof (rule rec_postI)
        show "pull_inv ?p'" by (rule pull_inv_failure[OF pre(1) False])
        show "all_referred ?p' rootID" by (rule all_referred_failure[OF pre(2) Suc.prems(3)])
        show "extends p ?p'" by (rule extends_failure)
        show "closed_new p ?p'" by (rule closed_new_same_pulled) (simp add: record_failure_simps)
        show "dom (pulled ?p') \<subseteq> dom (pulled p) \<union> S" by (simp add: record_failure_simps)
        show "set (requested ?p') \<subseteq> set (requested p) \<union> S"
          using Suc.prems(2) by (simp add: requested_failure)
        show "case Some (fetch_error wid err) of None \<Rightarrow> wid \<in> dom (pulled ?p') \<and> all_warned ?p'
              | Some e \<Rightarrow> (\<exists>err' r''. e = fetch_error wid err' \<and> ?p' = record_failure wid err' r'' p)"
          by auto
      qed
      then show ?thesis using run by simp
    next
      case (Inr w)
      let ?p2 = "record_workflow wid w r' p"
      let ?xs = "ExtractSubWorkflowIDs (Nodes w)"
      have run: "pullRecursive c (Suc n) wid p =
                   (case pullSubs c n ?xs ?p2 of None \<Rightarrow> None | Some p' \<Rightarrow> Some (None, p'))"
        using False ans Inr by simp
      have xsS: "set ?xs \<subseteq> S"
        using closed Suc.prems(2) ans Inr unfolding closed_under_def by blast
      have pre2: "pull_pre rootID ?p2"
        by (rule pull_preI[OF pull_inv_record[OF pre(1) False] all_referred_record[OF pre(2) False]
              all_warned_record[OF pre(3)]])
      have wid2: "wid \<in> dom (pulled ?p2)" by (simp add: record_workflow_simps)
      have body2: "body_references ?p2 wid = ?xs" by (simp add: body_references_record)
      have ref2: "referred ?p2 ?xs" unfolding referred_def using wid2 body2 by auto
      have d: "S - dom (pulled ?p2) = (S - dom (pulled p)) - {wid}"
        by (auto simp: record_workflow_simps)
      have "wid \<in> S - dom (pulled p)" using Suc.prems(2) False by simp
      moreover have "finite (S - dom (pulled p))" using fin by simp
      ultimately have "card (S - dom (pulled ?p2)) < card (S - dom (pulled p))"
        unfolding d by (intro card_Diff1_less)
      then have c2: "card (S - dom (pulled ?p2)) < n" using Suc.prems(4) by simp
      from pullSubs_total_from_rec[OF fin Suc.IH pre2 xsS ref2 c2]
      obtain p' where sub: "pullSubs c n ?xs ?p2 = Some p'" and post: "subs_post S rootID ?xs ?p2 p'"
        by blast
      note d2 = subs_postD[OF post]
      note pre' = pull_preD[OF d2(1)]
      have ext1: "extends p ?p2" by (rule extends_record[OF False])
      have wid': "wid \<in> dom (pulled p')" using extends_dom[OF d2(2)] wid2 by blast
      have body': "body_references p' wid = ?xs" using extends_body[OF d2(2) wid2] body2 by simp
      have cl: "closed_new p p'"
        unfolding closed_new_def
      proof
        fix a assume a: "a \<in> dom (pulled p') - dom (pulled p)"
        show "settled p' (body_references p' a)"
        proof (cases "a = wid")
          case True
          then show ?thesis using d2(6) body' by simp
        next
          case False
          then have "a \<in> dom (pulled p') - dom (pulled ?p2)"
            using a by (simp add: record_workflow_simps)
          then show ?thesis using d2(3) unfolding closed_new_def by blast
        qed
      qed
      have "dom (pulled ?p2) = insert wid (dom (pulled p))"
        by (simp add: record_workflow_simps)
      then have "dom (pulled p') \<subseteq> insert wid (dom (pulled p)) \<union> S"
        using d2(4) by (simp only:)
      then have dom: "dom (pulled p') \<subseteq> dom (pulled p) \<union> S"
        using Suc.prems(2) by (simp add: subset_iff) metis
      have "set (requested ?p2) = insert wid (set (requested p))"
        by (simp add: requested_record)
      then have "set (requested p') \<subseteq> insert wid (set (requested p)) \<union> S"
        using d2(5) by (simp only:)
      then have req: "set (requested p') \<subseteq> set (requested p) \<union> S"
        using Suc.prems(2) by (simp add: subset_iff) metis
      have "rec_post S rootID wid p None p'"
        by (rule rec_postI[OF pre'(1,2) extends_trans[OF ext1 d2(2)] cl dom req])
           (use wid' pre'(3) in simp)
      then show ?thesis using run sub by simp
    qed
  qed
qed

lemma initial_puller_simps:
  "pulled (initial_puller r rootID) = Map.empty" "printed (initial_puller r rootID) = []"
  "requests (initial_puller r rootID) = []" "remote_state (initial_puller r rootID) = r"
  "RootWorkflow (manifest (initial_puller r rootID)) = rootID"
  "Workflows (manifest (initial_puller r rootID)) = Map.empty"
  "Dependencies (manifest (initial_puller r rootID)) = Map.empty"
  by (simp_all add: initial_puller_def NewRecursivePuller_def)

lemma pull_pre_initial: "pull_pre rootID (initial_puller r rootID)"
  unfolding pull_pre_def pull_inv_def all_referred_def all_warned_def
  by (simp add: initial_puller_simps body_references_def)

lemma Pull_total:
  assumes "finite S" and "closed_under c S" and "rootID \<in> S" and "card S < fuel"
  shows "\<exists>r p. pullRecursive c fuel rootID (initial_puller r0 rootID) = Some (r, p) \<and>
               rec_post S rootID rootID (initial_puller r0 rootID) r p"
proof -
  have "card (S - dom (pulled (initial_puller r0 rootID))) < fuel"
    using assms(4) by (simp add: initial_puller_simps)
  from pullRecursive_total[OF assms(1,2) pull_pre_initial assms(3) disjI1[OF refl] this]
  show ?thesis .
qed

lemma first_request:
  assumes "pullRecursive c fuel rootID (initial_puller r0 rootID) = Some (r, p)"
  shows "(\<forall>err r1. c r0 rootID = (Inl err, r1) \<longrightarrow>
            r = Some (fetch_error rootID err) \<and> p = record_failure rootID err r1 (initial_puller r0 rootID)) \<and>
         (\<forall>w r1. c r0 rootID = (Inr w, r1) \<longrightarrow> r = None)"
proof (cases fuel)
  case 0
  then show ?thesis using assms by simp
next
  case (Suc n)
  obtain res r1 where ans: "c r0 rootID = (res, r1)" by (cases "c r0 rootID")
  show ?thesis
    using assms unfolding Suc
    by (cases res) (auto simp: ans initial_puller_simps split: option.splits)
qed


lemma pulled_iff_success:
  assumes "pull_inv p"
  shows "wid \<in> dom (pulled p) \<longleftrightarrow> (wid, None) \<in> set (requests p)"
proof
  assume "wid \<in> dom (pulled p)"
  then have "count_list (requests p) (wid, None) = 1" by (rule pull_invD(3)[OF assms])
  then show "(wid, None) \<in> set (requests p)"
    using count_list_0_iff[of "requests p" "(wid, None)"] by auto
next
  assume "(wid, None) \<in> set (requests p)"
  then show "wid \<in> dom (pulled p)" using pull_invD(4)[OF assms, of wid] by blast
qed


lemma Pull_cases:
  assumes "pullRecursive c fuel rootID (initial_puller r0 rootID) = Some (r, p)"
  shows "Pull c fuel r0 rootID =
           Some (case r of None \<Rightarrow> Inr \<lparr>result_Workflows = pulled p, result_Manifest = manifest p\<rparr>
                 | Some e \<Rightarrow> Inl e, p)"
  using assms unfolding Pull_def by (cases r) auto


lemma node_references_call_node:
  "node_references (call_node x) = (if x = [] then [] else [x])"
  by (simp add: node_references_def call_node_def shape_direct_def shape_object_def shape_value_def)

lemma Extract_workflow_calling:
  "set (ExtractSubWorkflowIDs (Nodes (workflow_calling wid subs))) \<subseteq> set subs"
  by (auto simp: set_ExtractSubWorkflowIDs workflow_calling_def node_references_call_node
      split: if_splits)



lemma closed_client_partial: "closed_under client_partial {''A'', ''B'', ''C''}"
  unfolding closed_under_def
proof (intro allI impI)
  fix r wid wfl r'
  assume h: "wid \<in> {''A'', ''B'', ''C''} \<and> client_partial r wid = (Inr wfl, r')"
  then have "wfl = workflow_calling ''A'' [''B'', ''C''] \<or> wfl = workflow_calling ''B'' []"
    by (auto simp: client_partial_def split: if_splits)
  then show "set (ExtractSubWorkflowIDs (Nodes wfl)) \<subseteq> {''A'', ''B'', ''C''}"
    using Extract_workflow_calling[of "''A''" "[''B'', ''C'']"]
      Extract_workflow_calling[of "''B''" "[]"]
    by auto
qed

lemma closed_client_flaky: "closed_under client_flaky {''A'', ''B'', ''C''}"
  unfolding closed_under_def
proof (intro allI impI)
  fix r wid wfl r'
  assume h: "wid \<in> {''A'', ''B'', ''C''} \<and> client_flaky r wid = (Inr wfl, r')"
  then have "wfl = workflow_calling ''A'' [''C'', ''B''] \<or> wfl = workflow_calling ''B'' [''C'']
      \<or> wfl = workflow_calling ''C'' []"
    by (auto simp: client_flaky_def split: if_splits)
  then show "set (ExtractSubWorkflowIDs (Nodes wfl)) \<subseteq> {''A'', ''B'', ''C''}"
    using Extract_workflow_calling[of "''A''" "[''C'', ''B'']"]
      Extract_workflow_calling[of "''B''" "[''C'']"] Extract_workflow_calling[of "''C''" "[]"]
    by auto
qed

lemma grows_refl: "grows c p p"
  unfolding grows_def by simp

lemma grows_trans: "grows c p q \<Longrightarrow> grows c q s \<Longrightarrow> grows c p s"
  unfolding grows_def by (elim conjE exE) (simp, blast)

lemma grows_failure: "grows c p (record_failure wid err r p)"
  unfolding grows_def by (simp add: record_failure_simps)

lemma grows_printed: "grows c p q \<Longrightarrow> grows c p (q\<lparr>printed := l\<rparr>)"
  unfolding grows_def by simp

lemma grows_record:
  assumes "c r0 wid = (Inr wfl, r)"
  shows "grows c p (record_workflow wid wfl r p)"
proof -
  have "\<not> isl (fst (c r0 wid))" using assms by simp
  then have "\<not> (\<forall>r. isl (fst (c r wid)))" by blast
  then show ?thesis unfolding grows_def by (simp add: record_workflow_simps)
qed

lemma grows_pull:
  "pullRecursive c n wid p = Some (res, p') \<Longrightarrow> grows c p p'"
  "pullSubs c n xs p = Some p' \<Longrightarrow> grows c p p'"
proof (induction c n wid p and c n xs p arbitrary: res p' and p'
    rule: pullRecursive_pullSubs.induct)
  case (1 c workflowID p)
  then show ?case by simp
next
  case (2 c n workflowID p)
  show ?case
  proof (cases "workflowID \<in> dom (pulled p)")
    case True
    then show ?thesis using "2.prems" by (simp add: grows_refl)
  next
    case False
    obtain a r where ans: "c (remote_state p) workflowID = (a, r)"
      by (cases "c (remote_state p) workflowID")
    show ?thesis
    proof (cases a)
      case (Inl err)
      then have "p' = record_failure workflowID err r p" using "2.prems" False ans by simp
      then show ?thesis by (simp add: grows_failure)
    next
      case (Inr wfl)
      then have sub: "pullSubs c n (ExtractSubWorkflowIDs (Nodes wfl)) (record_workflow workflowID wfl r p) = Some p'"
        using "2.prems" False ans by (simp split: option.splits)
      have "grows c (record_workflow workflowID wfl r p) p'"
        by (rule "2.IH"[OF False ans[symmetric] Inr sub])
      moreover have "grows c p (record_workflow workflowID wfl r p)"
        using ans Inr by (intro grows_record[of c "remote_state p"]) simp
      ultimately show ?thesis using grows_trans by blast
    qed
  qed
next
  case (3 c n p)
  then show ?case by (simp add: grows_refl)
next
  case (4 c n subID rest p)
  from "4.prems" obtain e q where rec: "pullRecursive c n subID p = Some (e, q)"
    by (cases "pullRecursive c n subID p") auto
  have g1: "grows c p q" by (rule "4.IH"(1)[OF rec])
  show ?case
  proof (cases e)
    case None
    then have "pullSubs c n rest q = Some p'" using "4.prems" rec by simp
    then have "grows c q p'" using "4.IH"(2) rec None by blast
    then show ?thesis using g1 grows_trans by blast
  next
    case (Some err)
    let ?q = "q\<lparr>printed := printed q @ [warning_line subID err]\<rparr>"
    have "pullSubs c n rest ?q = Some p'" using "4.prems" rec Some by simp
    then have "grows c ?q p'" using "4.IH"(3) rec Some by blast
    moreover have "grows c p ?q" by (rule grows_printed[OF g1])
    ultimately show ?thesis using grows_trans by blast
  qed
qed

lemma root_success_first:
  assumes rp: "pullRecursive c fuel rootID (initial_puller r0 rootID) = Some (res, p)"
    and ans: "c r0 rootID = (Inr w, r1)"
  shows "\<exists>zs. requests p = (rootID, None) # zs"
proof (cases fuel)
  case 0
  then show ?thesis using rp by simp
next
  case (Suc n)
  let ?p1 = "record_workflow rootID w r1 (initial_puller r0 rootID)"
  have "pullSubs c n (ExtractSubWorkflowIDs (Nodes w)) ?p1 = Some p"
    using rp ans unfolding Suc by (simp add: initial_puller_simps split: option.splits)
  then have "grows c ?p1 p" by (rule grows_pull(2))
  then obtain zs where "requests p = requests ?p1 @ zs" unfolding grows_def by blast
  then show ?thesis by (simp add: record_workflow_simps initial_puller_simps)
qed

lemma never_answered_absent:
  assumes rp: "pullRecursive c fuel rootID (initial_puller r0 rootID) = Some (res, p)"
    and never: "\<forall>r. isl (fst (c r x))"
  shows "x \<notin> dom (pulled p)"
proof -
  have "grows c (initial_puller r0 rootID) p" by (rule grows_pull(1)[OF rp])
  then show ?thesis using never unfolding grows_def by (auto simp: initial_puller_simps)
qed

lemma dom_Workflows_pulled:
  assumes "pull_inv p"
  shows "dom (Workflows (manifest p)) = dom (pulled p)"
proof (rule set_eqI)
  fix x
  have "Workflows (manifest p) x = map_option meta_for (pulled p x)"
    using pull_invD(1)[OF assms] by simp
  then show "x \<in> dom (Workflows (manifest p)) \<longleftrightarrow> x \<in> dom (pulled p)"
    by (simp add: domIff)
qed

subsection \<open>Termination and requests\<close>




subsection \<open>Failed requests\<close>

text \<open>
  Claim C2 (as amended). A pull over a finite reference graph returns. If the first request, the one
  for the root, fails, the result is the error wrapping the fetch error, no
  \<^verbatim>\<open>PullResult\<close>, nothing fetched and nothing printed. If it succeeds, the pull succeeds
  whatever later requests fail. The fetched set and the manifest's workflow map then have
  the same keys, namely the identifiers with a successful request. Every failed request is
  for an identifier other than the root, its warning line has been printed, and a fetched
  workflow has it in the dependency list recorded in the manifest. An identifier that the
  remote never answers with a workflow is in neither the fetched set nor the manifest's
  workflow map.
\<close>

theorem Pull_root_and_sub_failures:
  assumes "finite S" and "closed_under c S" and "rootID \<in> S" and "card S < fuel"
  shows "\<exists>res p. Pull c fuel r0 rootID = Some (res, p) \<and>
           (\<forall>err r1. c r0 rootID = (Inl err, r1) \<longrightarrow>
              res = Inl (fetch_error rootID err) \<and> pulled p = Map.empty \<and> printed p = []) \<and>
           (\<forall>w r1. c r0 rootID = (Inr w, r1) \<longrightarrow>
              res = Inr \<lparr>result_Workflows = pulled p, result_Manifest = manifest p\<rparr> \<and>
              rootID \<in> dom (pulled p) \<and>
              dom (Workflows (manifest p)) = dom (pulled p) \<and>
              (\<forall>x. x \<in> dom (pulled p) \<longleftrightarrow> (x, None) \<in> set (requests p)) \<and>
              (\<forall>x err. (x, Some err) \<in> set (requests p) \<longrightarrow>
                 x \<noteq> rootID \<and> warning_line x (fetch_error x err) \<in> set (printed p) \<and>
                 (\<exists>a deps. a \<in> dom (pulled p) \<and> Dependencies (manifest p) a = Some deps \<and>
                    x \<in> set deps)) \<and>
              (\<forall>x. (\<forall>r. isl (fst (c r x))) \<longrightarrow>
                 x \<notin> dom (pulled p) \<and> x \<notin> dom (Workflows (manifest p))))"
proof -
  from Pull_total[OF assms] obtain r p where
    rp: "pullRecursive c fuel rootID (initial_puller r0 rootID) = Some (r, p)"
    and post: "rec_post S rootID rootID (initial_puller r0 rootID) r p" by blast
  note d = rec_postD[OF post]
  note first = first_request[OF rp]
  let ?res = "case r of None \<Rightarrow> Inr \<lparr>result_Workflows = pulled p, result_Manifest = manifest p\<rparr>
                 | Some e \<Rightarrow> Inl e"
  have P: "Pull c fuel r0 rootID = Some (?res, p)" by (rule Pull_cases[OF rp])
  have domW: "dom (Workflows (manifest p)) = dom (pulled p)" by (rule dom_Workflows_pulled[OF d(1)])
  have fail: "\<forall>err r1. c r0 rootID = (Inl err, r1) \<longrightarrow>
              ?res = Inl (fetch_error rootID err) \<and> pulled p = Map.empty \<and> printed p = []"
  proof (intro allI impI)
    fix err r1 assume a: "c r0 rootID = (Inl err, r1)"
    from first a have r: "r = Some (fetch_error rootID err)"
      and p: "p = record_failure rootID err r1 (initial_puller r0 rootID)" by blast+
    show "?res = Inl (fetch_error rootID err) \<and> pulled p = Map.empty \<and> printed p = []"
      unfolding r p by (simp add: record_failure_simps initial_puller_simps)
  qed
  have ok: "\<forall>w r1. c r0 rootID = (Inr w, r1) \<longrightarrow>
              ?res = Inr \<lparr>result_Workflows = pulled p, result_Manifest = manifest p\<rparr> \<and>
              rootID \<in> dom (pulled p) \<and>
              dom (Workflows (manifest p)) = dom (pulled p) \<and>
              (\<forall>x. x \<in> dom (pulled p) \<longleftrightarrow> (x, None) \<in> set (requests p)) \<and>
              (\<forall>x err. (x, Some err) \<in> set (requests p) \<longrightarrow>
                 x \<noteq> rootID \<and> warning_line x (fetch_error x err) \<in> set (printed p) \<and>
                 (\<exists>a deps. a \<in> dom (pulled p) \<and> Dependencies (manifest p) a = Some deps \<and>
                    x \<in> set deps)) \<and>
              (\<forall>x. (\<forall>r. isl (fst (c r x))) \<longrightarrow>
                 x \<notin> dom (pulled p) \<and> x \<notin> dom (Workflows (manifest p)))"
  proof (intro allI impI)
    fix w r1 assume a: "c r0 rootID = (Inr w, r1)"
    from first a have r: "r = None" by blast
    have k1: "?res = Inr \<lparr>result_Workflows = pulled p, result_Manifest = manifest p\<rparr>"
      unfolding r by simp
    have k2: "rootID \<in> dom (pulled p)" and warned: "all_warned p" using d(7)[OF r] by blast+
    have k4: "\<forall>x. x \<in> dom (pulled p) \<longleftrightarrow> (x, None) \<in> set (requests p)"
      using pulled_iff_success[OF d(1)] by blast
    from root_success_first[OF rp a] obtain zs where zs: "requests p = (rootID, None) # zs" by blast
    have notroot: "rootID \<notin> set (map fst zs)"
      using pull_invD(5)[OF d(1), of "[]" rootID zs] zs by simp
    have k5: "\<forall>x err. (x, Some err) \<in> set (requests p) \<longrightarrow>
                 x \<noteq> rootID \<and> warning_line x (fetch_error x err) \<in> set (printed p) \<and>
                 (\<exists>a deps. a \<in> dom (pulled p) \<and> Dependencies (manifest p) a = Some deps \<and>
                    x \<in> set deps)"
    proof (intro allI impI)
      fix x err assume f: "(x, Some err) \<in> set (requests p)"
      then have "(x, Some err) \<in> set zs" unfolding zs by simp
      then have "x \<in> set (map fst zs)" by force
      then have n: "x \<noteq> rootID" using notroot by blast
      have w: "warning_line x (fetch_error x err) \<in> set (printed p)"
        using warned f unfolding all_warned_def warned_def by blast
      have "x = rootID \<or> referred p [x]" using d(2) f unfolding all_referred_def by blast
      then have "referred p [x]" using n by blast
      then obtain a where a: "a \<in> dom (pulled p)" and x: "x \<in> set (body_references p a)"
        unfolding referred_def by auto
      have "body_references p a \<noteq> []" using x by auto
      then have "Dependencies (manifest p) a = Some (body_references p a)"
        using pull_invD(2)[OF d(1), of a] by simp
      then have "\<exists>a deps. a \<in> dom (pulled p) \<and> Dependencies (manifest p) a = Some deps \<and> x \<in> set deps"
        using a x by blast
      then show "x \<noteq> rootID \<and> warning_line x (fetch_error x err) \<in> set (printed p) \<and>
                 (\<exists>a deps. a \<in> dom (pulled p) \<and> Dependencies (manifest p) a = Some deps \<and>
                    x \<in> set deps)"
        using n w by (intro conjI)
    qed
    have k6: "\<forall>x. (\<forall>r. isl (fst (c r x))) \<longrightarrow>
                 x \<notin> dom (pulled p) \<and> x \<notin> dom (Workflows (manifest p))"
      using never_answered_absent[OF rp] unfolding domW by blast
    show "?res = Inr \<lparr>result_Workflows = pulled p, result_Manifest = manifest p\<rparr> \<and>
              rootID \<in> dom (pulled p) \<and>
              dom (Workflows (manifest p)) = dom (pulled p) \<and>
              (\<forall>x. x \<in> dom (pulled p) \<longleftrightarrow> (x, None) \<in> set (requests p)) \<and>
              (\<forall>x err. (x, Some err) \<in> set (requests p) \<longrightarrow>
                 x \<noteq> rootID \<and> warning_line x (fetch_error x err) \<in> set (printed p) \<and>
                 (\<exists>a deps. a \<in> dom (pulled p) \<and> Dependencies (manifest p) a = Some deps \<and>
                    x \<in> set deps)) \<and>
              (\<forall>x. (\<forall>r. isl (fst (c r x))) \<longrightarrow>
                 x \<notin> dom (pulled p) \<and> x \<notin> dom (Workflows (manifest p)))"
      by (intro conjI k1 k2 domW k4 k5 k6)
  qed
  show ?thesis by (intro exI[of _ ?res] exI[of _ p] conjI P fail ok)
qed

text \<open>
  A references B and C, and the remote has no C: the pull of A succeeds with fetched set
  and workflow map {A, B}, the dependency list of A is [B, C], and one warning is printed.
  The pull of C fails.
\<close>

theorem Pull_root_and_sub_failures_witness:
  "finite {''A'', ''B'', ''C''} \<and> closed_under client_partial {''A'', ''B'', ''C''} \<and>
   ''A'' \<in> {''A'', ''B'', ''C''} \<and> ''C'' \<in> {''A'', ''B'', ''C''} \<and>
   card {''A'', ''B'', ''C''} < (4::nat) \<and>
   client_partial () ''A'' = (Inr (workflow_calling ''A'' [''B'', ''C'']), ()) \<and>
   client_partial () ''C'' = (Inl ''not found'', ()) \<and>
   (\<forall>r. isl (fst (client_partial r ''C''))) \<and>
   (\<exists>res p. Pull client_partial 4 () ''A'' = Some (res, p) \<and>
      (\<forall>err r1. client_partial () ''A'' = (Inl err, r1) \<longrightarrow>
         res = Inl (fetch_error ''A'' err) \<and> pulled p = Map.empty \<and> printed p = []) \<and>
      (\<forall>w r1. client_partial () ''A'' = (Inr w, r1) \<longrightarrow>
         res = Inr \<lparr>result_Workflows = pulled p, result_Manifest = manifest p\<rparr> \<and>
         ''A'' \<in> dom (pulled p) \<and>
         dom (Workflows (manifest p)) = dom (pulled p) \<and>
         (\<forall>x. x \<in> dom (pulled p) \<longleftrightarrow> (x, None) \<in> set (requests p)) \<and>
         (\<forall>x err. (x, Some err) \<in> set (requests p) \<longrightarrow>
            x \<noteq> ''A'' \<and> warning_line x (fetch_error x err) \<in> set (printed p) \<and>
            (\<exists>a deps. a \<in> dom (pulled p) \<and> Dependencies (manifest p) a = Some deps \<and>
               x \<in> set deps)) \<and>
         (\<forall>x. (\<forall>r. isl (fst (client_partial r x))) \<longrightarrow>
            x \<notin> dom (pulled p) \<and> x \<notin> dom (Workflows (manifest p))))) \<and>
   requests (final_puller client_partial 4 () ''A'')
     = [(''A'', None), (''B'', None), (''C'', Some ''not found'')] \<and>
   dom (pulled (final_puller client_partial 4 () ''A'')) = {''A'', ''B''} \<and>
   dom (Workflows (manifest (final_puller client_partial 4 () ''A''))) = {''A'', ''B''} \<and>
   Dependencies (manifest (final_puller client_partial 4 () ''A'')) ''A'' = Some [''B'', ''C''] \<and>
   printed (final_puller client_partial 4 () ''A'')
     = [warning_line ''C'' (fetch_error ''C'' ''not found'')] \<and>
   map_option (isl \<circ> fst) (Pull client_partial 4 () ''A'') = Some False \<and>
   (\<exists>res p. Pull client_partial 4 () ''C'' = Some (res, p) \<and>
      (\<forall>err r1. client_partial () ''C'' = (Inl err, r1) \<longrightarrow>
         res = Inl (fetch_error ''C'' err) \<and> pulled p = Map.empty \<and> printed p = []) \<and>
      (\<forall>w r1. client_partial () ''C'' = (Inr w, r1) \<longrightarrow>
         res = Inr \<lparr>result_Workflows = pulled p, result_Manifest = manifest p\<rparr> \<and>
         ''C'' \<in> dom (pulled p) \<and>
         dom (Workflows (manifest p)) = dom (pulled p) \<and>
         (\<forall>x. x \<in> dom (pulled p) \<longleftrightarrow> (x, None) \<in> set (requests p)) \<and>
         (\<forall>x err. (x, Some err) \<in> set (requests p) \<longrightarrow>
            x \<noteq> ''C'' \<and> warning_line x (fetch_error x err) \<in> set (printed p) \<and>
            (\<exists>a deps. a \<in> dom (pulled p) \<and> Dependencies (manifest p) a = Some deps \<and>
               x \<in> set deps)) \<and>
         (\<forall>x. (\<forall>r. isl (fst (client_partial r x))) \<longrightarrow>
            x \<notin> dom (pulled p) \<and> x \<notin> dom (Workflows (manifest p))))) \<and>
   map_option fst (Pull client_partial 4 () ''C'') = Some (Inl (fetch_error ''C'' ''not found''))"
proof -
  have fin: "finite {''A'', ''B'', ''C''}" by simp
  have memA: "''A'' \<in> {''A'', ''B'', ''C''}" by simp
  have memC: "''C'' \<in> {''A'', ''B'', ''C''}" by simp
  have c: "card {''A'', ''B'', ''C''} < (4::nat)" by simp
  have ans: "client_partial () ''A'' = (Inr (workflow_calling ''A'' [''B'', ''C'']), ())"
    "client_partial () ''C'' = (Inl ''not found'', ())"
    "\<forall>r. isl (fst (client_partial r ''C''))"
    by (simp_all add: client_partial_def)
  note runA = Pull_root_and_sub_failures[OF fin closed_client_partial memA c, where ?r0.0 = "()"]
  note runC = Pull_root_and_sub_failures[OF fin closed_client_partial memC c, where ?r0.0 = "()"]
  have ev: "requests (final_puller client_partial 4 () ''A'')
              = [(''A'', None), (''B'', None), (''C'', Some ''not found'')]"
    "dom (pulled (final_puller client_partial 4 () ''A'')) = {''A'', ''B''}"
    "dom (Workflows (manifest (final_puller client_partial 4 () ''A''))) = {''A'', ''B''}"
    "Dependencies (manifest (final_puller client_partial 4 () ''A'')) ''A'' = Some [''B'', ''C'']"
    "printed (final_puller client_partial 4 () ''A'')
       = [warning_line ''C'' (fetch_error ''C'' ''not found'')]"
    "map_option (isl \<circ> fst) (Pull client_partial 4 () ''A'') = Some False"
    "map_option fst (Pull client_partial 4 () ''C'') = Some (Inl (fetch_error ''C'' ''not found''))"
    by (simp_all add: final_puller_def Pull_def initial_puller_def NewRecursivePuller_def
        client_partial_def workflow_calling_def call_node_def record_workflow_def record_failure_def
        Let_def eval_nat_numeral ExtractSubWorkflowIDs_eq node_references_def shape_direct_def
        shape_object_def shape_value_def insert_commute)
  show ?thesis by (intro conjI fin closed_client_partial memA memC c ans runA runC ev)
qed

text \<open>
  The claim as stated fails when a failed request is followed by a successful one for
  the same identifier. A references C and B, B references C, and the remote fails the
  first request for C and answers the second: the request for C from A fails and is warned about, and C is in the
  fetched set and in the manifest's workflow map when the pull returns.
\<close>

theorem Pull_failed_then_fetched_counterexample:
  "closed_under client_flaky {''A'', ''B'', ''C''} \<and>
   requests (final_puller client_flaky 4 False ''A'')
     = [(''A'', None), (''C'', Some ''timeout''), (''B'', None), (''C'', None)] \<and>
   printed (final_puller client_flaky 4 False ''A'')
     = [warning_line ''C'' (fetch_error ''C'' ''timeout'')] \<and>
   pulled (final_puller client_flaky 4 False ''A'') ''C'' = Some (workflow_calling ''C'' []) \<and>
   Workflows (manifest (final_puller client_flaky 4 False ''A'')) ''C'' \<noteq> None \<and>
   map_option (isl \<circ> fst) (Pull client_flaky 4 False ''A'') = Some False"
proof -
  have ev: "requests (final_puller client_flaky 4 False ''A'')
     = [(''A'', None), (''C'', Some ''timeout''), (''B'', None), (''C'', None)]"
   "printed (final_puller client_flaky 4 False ''A'')
     = [warning_line ''C'' (fetch_error ''C'' ''timeout'')]"
   "pulled (final_puller client_flaky 4 False ''A'') ''C'' = Some (workflow_calling ''C'' [])"
   "Workflows (manifest (final_puller client_flaky 4 False ''A'')) ''C'' \<noteq> None"
   "map_option (isl \<circ> fst) (Pull client_flaky 4 False ''A'') = Some False"
    by (simp_all add: final_puller_def Pull_def initial_puller_def NewRecursivePuller_def
        client_flaky_def workflow_calling_def call_node_def record_workflow_def record_failure_def
        Let_def eval_nat_numeral ExtractSubWorkflowIDs_eq node_references_def shape_direct_def
        shape_object_def shape_value_def)
  show ?thesis by (intro conjI closed_client_flaky ev)
qed

section \<open>Errors of a directory push\<close>

text \<open>
  A directory without a manifest and a directory whose manifest cannot be parsed are
  both fatal, with different messages, and nothing is pushed in either case.
\<close>

lemma pushDirectory_absent_or_unparsable:
  "(files env (Join env dir ''manifest.json'') = NoSuchFile \<longrightarrow>
      pushDirectory env ro r dir create = (Some ''no manifest.json found in directory'', NewPusher r)) \<and>
   (\<forall>data err. files env (Join env dir ''manifest.json'') = Contents data \<and>
               unmarshal_manifest env data = Inl err \<longrightarrow>
      pushDirectory env ro r dir create = (Some (''failed to parse manifest: '' @ err), NewPusher r) \<and>
      ''failed to parse manifest: '' @ err \<noteq> ''no manifest.json found in directory'')"
  by (auto simp: pushDirectory_def ReadFile_def)

lemma pushDirectory_absent_or_unparsable_example:
  "pushDirectory (env_example fs_absent) ro_empty () ''flows'' True
     = (Some ''no manifest.json found in directory'', NewPusher ()) \<and>
   pushDirectory (env_example fs_garbled) ro_empty () ''flows'' True
     = (Some ''failed to parse manifest: unexpected end of JSON input'', NewPusher ())"
proof -
  have a: "files (env_example fs_absent) (Join (env_example fs_absent) ''flows'' ''manifest.json'') = NoSuchFile"
    by (simp add: env_example_def fs_absent_def)
  have g: "files (env_example fs_garbled) (Join (env_example fs_garbled) ''flows'' ''manifest.json'') = Contents ''{''"
    "unmarshal_manifest (env_example fs_garbled) ''{'' = Inl ''unexpected end of JSON input''"
    by (simp_all add: env_example_def fs_garbled_def)
  from pushDirectory_absent_or_unparsable[of "env_example fs_absent" "''flows''" ro_empty "()" True] a
  have 1: "pushDirectory (env_example fs_absent) ro_empty () ''flows'' True
     = (Some ''no manifest.json found in directory'', NewPusher ())" by blast
  from pushDirectory_absent_or_unparsable[of "env_example fs_garbled" "''flows''" ro_empty "()" True] g
  have 2: "pushDirectory (env_example fs_garbled) ro_empty () ''flows'' True
     = (Some (''failed to parse manifest: '' @ ''unexpected end of JSON input''), NewPusher ())" by blast
  from 1 2 show ?thesis by simp
qed

text \<open>
  Claim C9. The specification asks for an error that tells a manifest file that is absent from one
  that exists but cannot be read. \<^verbatim>\<open>pushDirectory\<close> does not tell them apart: it answers
  every error of \<^verbatim>\<open>os.ReadFile\<close> with the fixed message
  \<^verbatim>\<open>no manifest.json found in directory\<close> and drops the cause. For a manifest that exists
  but cannot be opened, the outcome of the push is therefore the outcome for a directory
  with no manifest at all. (\<^verbatim>\<open>config.Load\<close> separates \<^verbatim>\<open>os.IsNotExist\<close> from the other
  read errors, and \<^verbatim>\<open>pushFile\<close> and \<^verbatim>\<open>Pusher.Push\<close> wrap the cause of a failed read.)
\<close>

theorem pushDirectory_unreadable_reported_missing:
  assumes "files env (Join env dir ''manifest.json'') = Unreadable reason"
  shows "pushDirectory env ro r dir create
           = (Some ''no manifest.json found in directory'', NewPusher r) \<and>
         (files env' (Join env' dir' ''manifest.json'') = NoSuchFile \<longrightarrow>
            pushDirectory env' ro r dir' create = pushDirectory env ro r dir create)"
  using assms by (auto simp: pushDirectory_def ReadFile_def)

theorem pushDirectory_unreadable_reported_missing_witness:
  "files (env_example fs_unreadable) (Join (env_example fs_unreadable) ''flows'' ''manifest.json'')
     = Unreadable ''permission denied'' \<and>
   files (env_example fs_absent) (Join (env_example fs_absent) ''flows'' ''manifest.json'') = NoSuchFile \<and>
   pushDirectory (env_example fs_unreadable) ro_empty () ''flows'' False
     = (Some ''no manifest.json found in directory'', NewPusher ()) \<and>
   pushDirectory (env_example fs_absent) ro_empty () ''flows'' False
     = pushDirectory (env_example fs_unreadable) ro_empty () ''flows'' False"
proof -
  have u: "files (env_example fs_unreadable) (Join (env_example fs_unreadable) ''flows'' ''manifest.json'')
             = Unreadable ''permission denied''"
    by (simp add: env_example_def fs_unreadable_def)
  have a: "files (env_example fs_absent) (Join (env_example fs_absent) ''flows'' ''manifest.json'') = NoSuchFile"
    by (simp add: env_example_def fs_absent_def)
  from pushDirectory_unreadable_reported_missing[OF u, of ro_empty "()" False "env_example fs_absent" "''flows''"] a
  have "pushDirectory (env_example fs_unreadable) ro_empty () ''flows'' False
          = (Some ''no manifest.json found in directory'', NewPusher ())"
    and "pushDirectory (env_example fs_absent) ro_empty () ''flows'' False
          = pushDirectory (env_example fs_unreadable) ro_empty () ''flows'' False"
    by simp_all
  with u a show ?thesis by (intro conjI)
qed

end
